theory Spec2Isabelle
  imports Complex_Main "HOL-Library.Word" "HOL-Library.Multiset"
begin

unbundle bit_operations_syntax

section \<open>Colours\<close>

text \<open>
  \<^verbatim>\<open>color.RGBA\<close> of Go's library: four 8-bit channels, the colour channels
  alpha-premultiplied.  \<^verbatim>\<open>color.NRGBA\<close> has the same four channels, not premultiplied.
\<close>

record RGBA =
  R :: "8 word"
  G :: "8 word"
  B :: "8 word"
  A :: "8 word"

datatype NRGBA = NRGBA (NR: "8 word") (NG: "8 word") (NB: "8 word") (NA: "8 word")

text \<open>
  A value of the interface \<^verbatim>\<open>color.Color\<close>.  Its only method is \<^verbatim>\<open>RGBA()\<close>, which returns
  alpha-premultiplied components in the range 0..65535 as four \<^verbatim>\<open>uint32\<close>.  The two
  library types the program meets are kept as they are; any other implementation is
  given by what its method returns.
\<close>

datatype Color =
    RGBAColor RGBA
  | NRGBAColor NRGBA
  | OtherColor "32 word" "32 word" "32 word" "32 word"

definition widen :: "8 word \<Rightarrow> 32 word" where
  \<comment> \<open>\<^verbatim>\<open>r = uint32(c.R); r |= r << 8\<close>\<close>
  "widen c = (let r = ucast c in r OR push_bit 8 r)"

definition widen_premul :: "8 word \<Rightarrow> 8 word \<Rightarrow> 32 word" where
  \<comment> \<open>\<^verbatim>\<open>r = uint32(c.R); r |= r << 8; r *= uint32(c.A); r /= 0xff\<close>\<close>
  "widen_premul c a = (let r = ucast c; r = r OR push_bit 8 r; r = r * ucast a in r div 0xff)"

fun Color_RGBA :: "Color \<Rightarrow> 32 word \<times> 32 word \<times> 32 word \<times> 32 word" where
  "Color_RGBA (RGBAColor c) = (widen (R c), widen (G c), widen (B c), widen (A c))"
| "Color_RGBA (NRGBAColor c) =
     (widen_premul (NR c) (NA c), widen_premul (NG c) (NA c), widen_premul (NB c) (NA c),
      widen (NA c))"
| "Color_RGBA (OtherColor r g b a) = (r, g, b, a)"

text \<open>
  \<^verbatim>\<open>color.NRGBAModel.Convert\<close>, which \<^verbatim>\<open>(*image.NRGBA).Set\<close> applies to the colour it
  stores.
\<close>

definition narrow :: "32 word \<Rightarrow> 8 word" where
  \<comment> \<open>\<^verbatim>\<open>uint8(r >> 8)\<close>\<close>
  "narrow r = ucast (drop_bit 8 r)"

fun nrgbaModel :: "Color \<Rightarrow> NRGBA" where
  "nrgbaModel (NRGBAColor c) = c"
| "nrgbaModel c =
     (case Color_RGBA c of (r, g, b, a) \<Rightarrow>
        if a = 0xffff then NRGBA (narrow r) (narrow g) (narrow b) 0xff
        else if a = 0 then NRGBA 0 0 0 0
        else NRGBA (narrow ((r * 0xffff) div a)) (narrow ((g * 0xffff) div a))
               (narrow ((b * 0xffff) div a)) (narrow a))"

section \<open>Images\<close>

text \<open>
  \<^verbatim>\<open>image.Image\<close>: the bounds and the method \<^verbatim>\<open>At\<close>.  The generated images are a
  rectangle and the pixels stored in it; a pixel never set keeps the zero value.
\<close>

record Rectangle =
  MinX :: int
  MinY :: int
  MaxX :: int
  MaxY :: int

record Image =
  Bounds :: Rectangle
  At :: "int \<Rightarrow> int \<Rightarrow> Color"

record 'p Picture =
  Rect :: Rectangle
  Pix :: "int \<times> int \<Rightarrow> 'p"

definition image_Rect :: "int \<Rightarrow> int \<Rightarrow> int \<Rightarrow> int \<Rightarrow> Rectangle" where
  \<comment> \<open>\<^verbatim>\<open>image.Rect\<close> puts the corners in order.\<close>
  "image_Rect x0 y0 x1 y1 =
     \<lparr>MinX = min x0 x1, MinY = min y0 y1, MaxX = max x0 x1, MaxY = max y0 y1\<rparr>"

definition In :: "int \<times> int \<Rightarrow> Rectangle \<Rightarrow> bool" where
  "In p r = (MinX r \<le> fst p \<and> fst p < MaxX r \<and> MinY r \<le> snd p \<and> snd p < MaxY r)"

definition zeroRGBA :: RGBA where
  "zeroRGBA = \<lparr>R = 0, G = 0, B = 0, A = 0\<rparr>"

definition NewNRGBA :: "Rectangle \<Rightarrow> NRGBA Picture" where
  "NewNRGBA r = \<lparr>Rect = r, Pix = (\<lambda>_. NRGBA 0 0 0 0)\<rparr>"

definition NewRGBA :: "Rectangle \<Rightarrow> RGBA Picture" where
  "NewRGBA r = \<lparr>Rect = r, Pix = (\<lambda>_. zeroRGBA)\<rparr>"

definition NRGBA_Set :: "NRGBA Picture \<Rightarrow> int \<Rightarrow> int \<Rightarrow> Color \<Rightarrow> NRGBA Picture" where
  "NRGBA_Set p x y c =
     (if In (x, y) (Rect p) then p\<lparr>Pix := (Pix p)((x, y) := nrgbaModel c)\<rparr> else p)"

definition SetRGBA :: "RGBA Picture \<Rightarrow> int \<Rightarrow> int \<Rightarrow> RGBA \<Rightarrow> RGBA Picture" where
  "SetRGBA p x y c =
     (if In (x, y) (Rect p) then p\<lparr>Pix := (Pix p)((x, y) := c)\<rparr> else p)"

definition scan :: "Rectangle \<Rightarrow> (int \<times> int) list" where
  \<comment> \<open>the two nested loops over the bounds: rows from top to bottom, each from left to right\<close>
  "scan b = concat (map (\<lambda>y. map (\<lambda>x. (x, y)) [MinX b..MaxX b - 1]) [MinY b..MaxY b - 1])"

section \<open>The colour normalizer\<close>

text \<open>
  \<^verbatim>\<open>uint8((float64(r) / 65535.0) * 255.0)\<close>.  The quotient and the product are taken in
  the real numbers and truncated.  On every \<open>r\<close> from 0 to 65535, the range of
  \<^verbatim>\<open>Color.RGBA()\<close>, the 64-bit floating-point evaluation gives the same byte as the exact one.
\<close>

definition scale8 :: "32 word \<Rightarrow> 8 word" where
  "scale8 r = word_of_int \<lfloor>(real_of_int (uint r) / 65535) * 255\<rfloor>"

definition colourTo8BitRGBA :: "Color \<Rightarrow> RGBA" where
  "colourTo8BitRGBA c =
     (case Color_RGBA c of (r, g, b, a) \<Rightarrow>
        \<lparr>R = scale8 r, G = scale8 g, B = scale8 b, A = scale8 a\<rparr>)"

definition colourTo8BitPaletteRGBA :: "Color \<Rightarrow> RGBA" where
  "colourTo8BitPaletteRGBA c = (let cout = colourTo8BitRGBA c in cout\<lparr>A := 255\<rparr>)"

section \<open>Unique colours and their order\<close>

text \<open>
  The 64-bit floating-point numbers \<open>H\<close>, \<open>S\<close>, \<open>V\<close> are modelled by the real numbers
  they denote: all of them are finite, and on finite values \<^verbatim>\<open><\<close> is the order of the reals.
  The rounding of each floating-point operation is not modelled.
\<close>

definition EPSILON :: real where
  "EPSILON = 1 / 100000000"

definition floatEquals :: "real \<Rightarrow> real \<Rightarrow> bool" where
  "floatEquals a b = (if (a - b) < EPSILON \<and> (b - a) < EPSILON then True else False)"

record UniqueColour =
  RGBA :: RGBA
  H :: real
  S :: real
  V :: real
  Index :: "16 word"

text \<open>
  \<^verbatim>\<open>UniqueColourList\<close> is a slice of pointers, and the colour map holds the same pointers.
  A pointer is an address in a store of \<^verbatim>\<open>UniqueColour\<close> cells.
\<close>

type_synonym addr = nat
type_synonym store = "addr \<Rightarrow> UniqueColour"
type_synonym UniqueColourList = "addr list"

definition Len :: "UniqueColourList \<Rightarrow> nat" where
  "Len l = length l"

definition Less :: "store \<Rightarrow> UniqueColourList \<Rightarrow> nat \<Rightarrow> nat \<Rightarrow> bool" where
  "Less h l i j =
     (let a = h (l ! i); b = h (l ! j)
      in if floatEquals (H a) (H b)
         then (if floatEquals (S a) (S b) then V a < V b else S a < S b)
         else H a < H b)"

definition Swap :: "store \<Rightarrow> UniqueColourList \<Rightarrow> nat \<Rightarrow> nat \<Rightarrow> store \<times> UniqueColourList" where
  "Swap h l i j =
     (let pi = l ! i; pj = l ! j;
          vj = Index (h pj); vi = Index (h pi);
          h = h(pi := (h pi)\<lparr>Index := vj\<rparr>);
          h = h(pj := (h pj)\<lparr>Index := vi\<rparr>)
      in (h, l[i := pj, j := pi]))"

text \<open>
  \<^verbatim>\<open>sort.Sort\<close> belongs to Go's library and reaches the data through \<^verbatim>\<open>Len\<close>,
  \<^verbatim>\<open>Less\<close> and \<^verbatim>\<open>Swap\<close> only.  The model runs the library's insertion sort,
  \<^verbatim>\<open>for i := a + 1; i < b; i++ { for j := i; j > a && data.Less(j, j-1); j-- { data.Swap(j, j-1) } }\<close>,
  which the library applies to short slices, on the whole list.
\<close>

fun insertDown :: "store \<times> UniqueColourList \<Rightarrow> nat \<Rightarrow> store \<times> UniqueColourList" where
  "insertDown (h, l) 0 = (h, l)"
| "insertDown (h, l) (Suc j) =
     (if Less h l (Suc j) j then insertDown (Swap h l (Suc j) j) j else (h, l))"

definition insertionSort :: "store \<times> UniqueColourList \<Rightarrow> store \<times> UniqueColourList" where
  "insertionSort s = fold (\<lambda>i s. insertDown s i) [1..<Len (snd s)] s"

definition sort_Sort :: "store \<times> UniqueColourList \<Rightarrow> store \<times> UniqueColourList" where
  "sort_Sort s = insertionSort s"

section \<open>Hue, saturation, value\<close>

definition math_Mod :: "real \<Rightarrow> real \<Rightarrow> real" where
  \<comment> \<open>\<^verbatim>\<open>math.Mod\<close>: the remainder that has the sign of \<open>x\<close>\<close>
  "math_Mod x y = x - y * of_int (if 0 \<le> x / y then \<lfloor>x / y\<rfloor> else \<lceil>x / y\<rceil>)"

text \<open>
  Modelled from the spec: the source calls the method \<^verbatim>\<open>Hsv\<close> of the colour library it
  imports, whose code is not part of the repository; the spec describes it as a standard
  RGB to HSV formula operating on channels scaled to [0,1].  The definition is that formula in
  the form the library computes it: hue in degrees, 0 for greys, the last matching
  channel deciding the sector.
\<close>

definition Hsv :: "real \<Rightarrow> real \<Rightarrow> real \<Rightarrow> real \<times> real \<times> real" where
  "Hsv r g b =
     (let mn = min (min r g) b;
          v = max (max r g) b;
          C = v - mn;
          s = (if v \<noteq> 0 then C / v else 0);
          h = (if mn \<noteq> v
               then (let h = (if v = r then math_Mod ((g - b) / C) 6 else 0);
                         h = (if v = g then (b - r) / C + 2 else h);
                         h = (if v = b then (r - g) / C + 4 else h);
                         h = h * 60
                     in if h < 0 then h + 360 else h)
               else 0)
      in (h, s, v))"

definition newUniqueColour :: "RGBA \<Rightarrow> UniqueColour" where
  \<comment> \<open>\<^verbatim>\<open>cfcol := colorful.Color{...}; h, s, v := cfcol.Hsv(); col := &UniqueColour{p, h, s, v, 0}\<close>\<close>
  "newUniqueColour p =
     (case Hsv (real (unat (R p)) / 255) (real (unat (G p)) / 255) (real (unat (B p)) / 255) of
        (h, s, v) \<Rightarrow> \<lparr>RGBA = p, H = h, S = s, V = v, Index = 0\<rparr>)"

section \<open>The palette layout\<close>

text \<open>Go's \<^verbatim>\<open>int\<close> is taken as 64 bits wide; \<^verbatim>\<open>>>\<close> on it is the arithmetic shift.\<close>

definition nextPowerOfTwo :: "64 word \<Rightarrow> 64 word" where
  "nextPowerOfTwo v0 =
     (let v = v0 - 1;
          v = v OR signed_drop_bit 1 v;
          v = v OR signed_drop_bit 2 v;
          v = v OR signed_drop_bit 4 v;
          v = v OR signed_drop_bit 8 v;
          v = v OR signed_drop_bit 16 v
      in v + 1)"

definition getPaletteImageDimensions :: "64 word \<Rightarrow> 64 word \<times> 64 word" where
  "getPaletteImageDimensions numColours =
     (if 256 <s numColours
      then (256, nextPowerOfTwo (word_of_int \<lceil>real_of_int (sint numColours) / 256\<rceil>))
      else if numColours \<le>s 128 then (nextPowerOfTwo numColours, 1)
      else (256, 1))"

section \<open>GenerateFromImage\<close>

datatype error = TooManyColours | WriteFailed

text \<open>What the surroundings decide: whether each file operation succeeds, and the order in
  which \<^verbatim>\<open>range\<close> enumerates the colour map.\<close>

record env =
  openSprite :: bool
  encodeSprite :: bool
  openPalette :: bool
  encodePalette :: bool
  rangeOrder :: "addr list \<Rightarrow> addr list"

datatype 'a outfile = Untouched | Truncated | Written 'a

record result =
  ret :: "error + RGBA list"
  spriteFile :: "NRGBA Picture outfile"
  paletteFile :: "RGBA Picture outfile"

text \<open>The colour map: the keys in the order of their insertion, each with its pointer.\<close>

type_synonym colourMap = "(RGBA \<times> addr) list"

definition zeroColour :: UniqueColour where
  "zeroColour = \<lparr>RGBA = zeroRGBA, H = 0, S = 0, V = 0, Index = 0\<rparr>"

definition record_pixel :: "Image \<Rightarrow> int \<times> int \<Rightarrow> store \<times> colourMap \<Rightarrow> store \<times> colourMap" where
  "record_pixel img xy s =
     (case s of (h, m) \<Rightarrow>
        let p = colourTo8BitPaletteRGBA (At img (fst xy) (snd xy))
        in (case map_of m p of
              None \<Rightarrow> (let col = length m in (h(col := newUniqueColour p), m @ [(p, col)]))
            | Some _ \<Rightarrow> (h, m)))"

definition buildColourMap :: "Image \<Rightarrow> store \<times> colourMap" where
  "buildColourMap img = fold (record_pixel img) (scan (Bounds img)) (\<lambda>_. zeroColour, [])"

fun assignIndexes ::
  "addr list \<Rightarrow> store \<Rightarrow> 16 word \<Rightarrow> UniqueColourList \<Rightarrow> store \<times> UniqueColourList" where
  "assignIndexes [] h nextIndex colourList = (h, colourList)"
| "assignIndexes (c # cs) h nextIndex colourList =
     assignIndexes cs (h(c := (h c)\<lparr>Index := nextIndex\<rparr>)) (nextIndex + 1) (colourList @ [c])"

definition catalogue :: "env \<Rightarrow> Image \<Rightarrow> store \<times> UniqueColourList" where
  \<comment> \<open>the store and the colour list after \<^verbatim>\<open>sort.Sort(colourList)\<close>\<close>
  "catalogue e img =
     (case buildColourMap img of (h, m) \<Rightarrow>
        sort_Sort (assignIndexes (rangeOrder e (map snd m)) h 0 []))"

definition encode_pixel ::
  "Image \<Rightarrow> colourMap \<Rightarrow> store \<Rightarrow> int \<times> int \<Rightarrow> NRGBA Picture \<Rightarrow> NRGBA Picture" where
  "encode_pixel img m h xy outSprite =
     (let inpix = colourTo8BitPaletteRGBA (At img (fst xy) (snd xy))
      in case map_of m inpix of
           Some col \<Rightarrow>
             (let red = (ucast (Index (h col) AND 0x0000FFFF) :: 8 word);
                  blue = (ucast (drop_bit 16 (Index (h col))) :: 8 word)
              in NRGBA_Set outSprite (fst xy) (snd xy)
                   (RGBAColor \<lparr>R = red, G = blue, B = 0, A = A inpix\<rparr>))
         | None \<Rightarrow> outSprite)"

definition encodeImage :: "Image \<Rightarrow> colourMap \<Rightarrow> store \<Rightarrow> NRGBA Picture" where
  "encodeImage img m h =
     (let bounds = Bounds img
      in fold (encode_pixel img m h) (scan bounds)
           (NewNRGBA (image_Rect (MinX bounds) (MinY bounds) (MaxX bounds) (MaxY bounds))))"

fun layoutPalette ::
  "64 word \<Rightarrow> store \<Rightarrow> UniqueColourList \<Rightarrow> 64 word \<Rightarrow> 64 word \<Rightarrow> RGBA Picture \<Rightarrow> RGBA list \<Rightarrow>
     RGBA Picture \<times> RGBA list" where
  "layoutPalette width h [] x y outPalette palette = (outPalette, palette)"
| "layoutPalette width h (c # cs) x y outPalette palette =
     (let outPalette = SetRGBA outPalette (sint x) (sint y) (RGBA (h c));
          palette = palette @ [RGBA (h c)];
          x = x + 1
      in if x = width then layoutPalette width h cs 0 (y + 1) outPalette palette
         else layoutPalette width h cs x y outPalette palette)"

definition GenerateFromImage :: "env \<Rightarrow> Image \<Rightarrow> string \<Rightarrow> string \<Rightarrow> result" where
  "GenerateFromImage e img outImagePath outPaletteTexture =
     (case buildColourMap img of (h0, m) \<Rightarrow>
        if length m > 65536
        then \<lparr>ret = Inl TooManyColours, spriteFile = Untouched, paletteFile = Untouched\<rparr>
        else
          (case catalogue e img of (h, colourList) \<Rightarrow>
             let outSprite = encodeImage img m h
             in if \<not> openSprite e
                then \<lparr>ret = Inl WriteFailed, spriteFile = Untouched, paletteFile = Untouched\<rparr>
                else if \<not> encodeSprite e
                then \<lparr>ret = Inl WriteFailed, spriteFile = Truncated, paletteFile = Untouched\<rparr>
                else if length outPaletteTexture > 0
                then
                  (case getPaletteImageDimensions (word_of_nat (length colourList)) of
                     (width, height) \<Rightarrow>
                       (case layoutPalette width h colourList 0 0
                               (NewRGBA (image_Rect 0 0 (sint width) (sint height))) [] of
                          (outPalette, palette) \<Rightarrow>
                            if \<not> openPalette e
                            then \<lparr>ret = Inl WriteFailed, spriteFile = Written outSprite,
                                   paletteFile = Untouched\<rparr>
                            else if \<not> encodePalette e
                            then \<lparr>ret = Inl WriteFailed, spriteFile = Written outSprite,
                                   paletteFile = Truncated\<rparr>
                            else \<lparr>ret = Inr palette, spriteFile = Written outSprite,
                                   paletteFile = Written outPalette\<rparr>))
                else \<lparr>ret = Inr [], spriteFile = Written outSprite, paletteFile = Untouched\<rparr>))"

section \<open>Notions used in the proofs\<close>

definition pixelColours :: "Image \<Rightarrow> RGBA list" where
  "pixelColours img =
     map (\<lambda>xy. colourTo8BitPaletteRGBA (At img (fst xy) (snd xy))) (scan (Bounds img))"

definition wf_map :: "store \<Rightarrow> colourMap \<Rightarrow> bool" where
  "wf_map h m = (distinct (map fst m) \<and> map snd m = [0..<length m] \<and>
                 (\<forall>(p, a) \<in> set m. h a = newUniqueColour p))"

definition indexed :: "store \<Rightarrow> UniqueColourList \<Rightarrow> bool" where
  "indexed h l = (\<forall>i < length l. unat (Index (h (l ! i))) = i)"

definition same_colours :: "store \<Rightarrow> store \<Rightarrow> bool" where
  "same_colours h h' = (\<forall>a. (h' a)\<lparr>Index := 0\<rparr> = (h a)\<lparr>Index := 0\<rparr>)"

definition before :: "UniqueColour \<Rightarrow> UniqueColour \<Rightarrow> bool" where
  "before a b =
     (if floatEquals (H a) (H b)
      then (if floatEquals (S a) (S b) then V a < V b else S a < S b)
      else H a < H b)"

fun insr :: "('a \<Rightarrow> 'a \<Rightarrow> bool) \<Rightarrow> 'a \<Rightarrow> 'a list \<Rightarrow> 'a list" where
  "insr lt x [] = [x]"
| "insr lt x (y # ys) = (if lt x y then y # insr lt x ys else x # y # ys)"

fun insDown :: "('a \<Rightarrow> 'a \<Rightarrow> bool) \<Rightarrow> 'a list \<Rightarrow> nat \<Rightarrow> 'a list" where
  "insDown lt l 0 = l"
| "insDown lt l (Suc j) =
     (if lt (l ! Suc j) (l ! j) then insDown lt (l[Suc j := l ! j, j := l ! Suc j]) j else l)"

definition sector :: "real \<Rightarrow> real \<Rightarrow> real \<Rightarrow> real" where
  "sector r g b =
     (let v = max (max r g) b; C = v - min (min r g) b
      in if v = b then (r - g) / C + 4 else if v = g then (b - r) / C + 2 else (g - b) / C)"

definition on_grid :: "real \<Rightarrow> real \<Rightarrow> bool" where
  "on_grid d x = (\<exists>n k :: int. 0 < k \<and> k \<le> 255 \<and> x = d * of_int n / of_int k)"

definition enumerates :: "env \<Rightarrow> bool" where
  \<comment> \<open>\<^verbatim>\<open>range\<close> visits every entry of the map once, in an order of its choice\<close>
  "enumerates e = (\<forall>l. mset (rangeOrder e l) = mset l)"



section \<open>Concrete inputs\<close>


definition allWell :: env where
  "allWell = \<lparr>openSprite = True, encodeSprite = True, openPalette = True, encodePalette = True,
              rangeOrder = (\<lambda>l. l)\<rparr>"

definition redPixel :: Image where
  "redPixel = \<lparr>Bounds = \<lparr>MinX = 0, MinY = 0, MaxX = 1, MaxY = 1\<rparr>,
               At = (\<lambda>x y. NRGBAColor (NRGBA 255 0 0 255))\<rparr>"

definition halfRed :: Image where
  "halfRed = \<lparr>Bounds = \<lparr>MinX = 0, MinY = 0, MaxX = 1, MaxY = 1\<rparr>,
              At = (\<lambda>x y. NRGBAColor (NRGBA 255 0 0 128))\<rparr>"

definition transparentAndOpaque :: Image where
  "transparentAndOpaque =
     \<lparr>Bounds = \<lparr>MinX = 0, MinY = 0, MaxX = 2, MaxY = 1\<rparr>,
      At = (\<lambda>x y. if x = 0 then NRGBAColor (NRGBA 255 0 0 0) else NRGBAColor (NRGBA 255 0 0 255))\<rparr>"

section \<open>The palette sizes\<close>













section \<open>An image without pixels\<close>




subsection \<open>Building the colour map\<close>

lemma wf_map_addr: "wf_map h m \<Longrightarrow> (p, a) \<in> set m \<Longrightarrow> a < length m"
proof -
  assume w: "wf_map h m" and "(p, a) \<in> set m"
  then have "a \<in> set (map snd m)" by force
  with w show ?thesis by (simp add: wf_map_def)
qed

lemma record_pixel_wf:
  assumes "wf_map h m" and "record_pixel img xy (h, m) = (h1, m1)"
  shows "wf_map h1 m1 \<and>
         set (map fst m1) = insert (colourTo8BitPaletteRGBA (At img (fst xy) (snd xy))) (set (map fst m))"
proof (cases "map_of m (colourTo8BitPaletteRGBA (At img (fst xy) (snd xy)))")
  case None
  let ?p = "colourTo8BitPaletteRGBA (At img (fst xy) (snd xy))"
  from None assms(2) have e: "h1 = h(length m := newUniqueColour ?p)" "m1 = m @ [(?p, length m)]"
    by (simp_all add: record_pixel_def Let_def)
  from None have nin: "?p \<notin> set (map fst m)" by (simp add: map_of_eq_None_iff)
  have "\<forall>(q, a) \<in> set m. h1 a = newUniqueColour q"
  proof (clarify)
    fix q a assume qa: "(q, a) \<in> set m"
    then have "a < length m" using assms(1) by (rule wf_map_addr [rotated])
    then show "h1 a = newUniqueColour q" using qa assms(1) by (auto simp: e wf_map_def)
  qed
  then show ?thesis using assms(1) nin by (auto simp: e wf_map_def)
next
  case (Some a)
  let ?p = "colourTo8BitPaletteRGBA (At img (fst xy) (snd xy))"
  from Some assms(2) have e: "h1 = h" "m1 = m" by (simp_all add: record_pixel_def Let_def)
  from Some have "(?p, a) \<in> set m" by (rule map_of_SomeD)
  then have "?p \<in> set (map fst m)" by force
  then show ?thesis using assms(1) by (auto simp: e)
qed

lemma fold_record_pixel_wf:
  assumes "wf_map h m" and "fold (record_pixel img) ps (h, m) = (h', m')"
  shows "wf_map h' m' \<and>
         set (map fst m') =
           set (map fst m) \<union> set (map (\<lambda>xy. colourTo8BitPaletteRGBA (At img (fst xy) (snd xy))) ps)"
  using assms
proof (induction ps arbitrary: h m)
  case Nil
  then show ?case by simp
next
  case (Cons xy ps)
  obtain h1 m1 where s: "record_pixel img xy (h, m) = (h1, m1)" by (cases "record_pixel img xy (h, m)")
  from record_pixel_wf [OF Cons.prems(1) s]
  have w1: "wf_map h1 m1"
    and k1: "set (map fst m1) = insert (colourTo8BitPaletteRGBA (At img (fst xy) (snd xy))) (set (map fst m))"
    by simp_all
  from Cons.prems(2) s have "fold (record_pixel img) ps (h1, m1) = (h', m')" by simp
  from Cons.IH [OF w1 this] k1 show ?case by auto
qed

lemma buildColourMap_wf:
  assumes "buildColourMap img = (h, m)"
  shows "wf_map h m" and "set (map fst m) = set (pixelColours img)"
    and "length m = card (set (pixelColours img))"
proof -
  have w0: "wf_map (\<lambda>_. zeroColour) []" by (simp add: wf_map_def)
  from fold_record_pixel_wf [OF w0 assms [unfolded buildColourMap_def]]
  show w: "wf_map h m" and k: "set (map fst m) = set (pixelColours img)"
    by (simp_all add: pixelColours_def)
  from w have "distinct (map fst m)" by (simp add: wf_map_def)
  then have "card (set (map fst m)) = length (map fst m)" by (rule distinct_card)
  then show "length m = card (set (pixelColours img))" using k by simp
qed

subsection \<open>The provisional indexes\<close>

lemma assignIndexes_list: "snd (assignIndexes cs h n l) = l @ cs"
  by (induction cs arbitrary: h n l) simp_all

lemma same_colours_refl: "same_colours h h"
  by (simp add: same_colours_def)

lemma same_colours_trans: "same_colours h h1 \<Longrightarrow> same_colours h1 h2 \<Longrightarrow> same_colours h h2"
  by (simp add: same_colours_def)

lemma same_colours_upd: "same_colours h (h(c := (h c)\<lparr>Index := n\<rparr>))"
  by (simp add: same_colours_def)

lemma same_colours_fields:
  assumes "same_colours h h'"
  shows "RGBA (h' a) = RGBA (h a)" and "H (h' a) = H (h a)" and "S (h' a) = S (h a)"
    and "V (h' a) = V (h a)"
proof -
  have e: "(h' a)\<lparr>Index := 0\<rparr> = (h a)\<lparr>Index := 0\<rparr>" using assms by (simp add: same_colours_def)
  have "RGBA ((h' a)\<lparr>Index := 0\<rparr>) = RGBA ((h a)\<lparr>Index := 0\<rparr>)" by (simp only: e)
  then show "RGBA (h' a) = RGBA (h a)" by simp
  have "H ((h' a)\<lparr>Index := 0\<rparr>) = H ((h a)\<lparr>Index := 0\<rparr>)" by (simp only: e)
  then show "H (h' a) = H (h a)" by simp
  have "S ((h' a)\<lparr>Index := 0\<rparr>) = S ((h a)\<lparr>Index := 0\<rparr>)" by (simp only: e)
  then show "S (h' a) = S (h a)" by simp
  have "V ((h' a)\<lparr>Index := 0\<rparr>) = V ((h a)\<lparr>Index := 0\<rparr>)" by (simp only: e)
  then show "V (h' a) = V (h a)" by simp
qed

lemma assignIndexes_same: "same_colours h (fst (assignIndexes cs h n l))"
proof (induction cs arbitrary: h n l)
  case Nil
  show ?case by (simp add: same_colours_def)
next
  case (Cons c cs)
  have "same_colours (h(c := (h c)\<lparr>Index := n\<rparr>))
          (fst (assignIndexes cs (h(c := (h c)\<lparr>Index := n\<rparr>)) (n + 1) (l @ [c])))"
    by (rule Cons.IH)
  then have "same_colours (h(c := (h c)\<lparr>Index := n\<rparr>)) (fst (assignIndexes (c # cs) h n l))"
    by (simp only: assignIndexes.simps)
  with same_colours_upd show ?case by (rule same_colours_trans)
qed

lemma assignIndexes_untouched:
  "a \<notin> set cs \<Longrightarrow> fst (assignIndexes cs h n l) a = h a"
  by (induction cs arbitrary: h n l) simp_all

lemma assignIndexes_Index:
  "distinct cs \<Longrightarrow> i < length cs \<Longrightarrow>
     Index (fst (assignIndexes cs h n l) (cs ! i)) = n + of_nat i"
proof (induction cs arbitrary: h n l i)
  case Nil
  then show ?case by simp
next
  case (Cons c cs)
  show ?case
  proof (cases i)
    case 0
    then show ?thesis using Cons.prems by (simp add: assignIndexes_untouched)
  next
    case (Suc k)
    then have "distinct cs" "k < length cs" using Cons.prems by simp_all
    then have "Index (fst (assignIndexes cs (h(c := (h c)\<lparr>Index := n\<rparr>)) (n + 1) (l @ [c])) (cs ! k))
                 = n + 1 + of_nat k"
      by (rule Cons.IH)
    then show ?thesis unfolding Suc by (simp only: assignIndexes.simps nth_Cons_Suc of_nat_Suc ac_simps)
  qed
qed

lemma assignIndexes_indexed:
  assumes "distinct cs" and "length cs \<le> 65536"
  shows "indexed (fst (assignIndexes cs h 0 [])) (snd (assignIndexes cs h 0 []))"
proof -
  have "unat (Index (fst (assignIndexes cs h 0 []) (cs ! i))) = i" if "i < length cs" for i
  proof -
    have "i < 65536" using that assms(2) by simp
    then have "unat (of_nat i :: 16 word) = i" by (intro of_nat_inverse) simp_all
    then show ?thesis using assignIndexes_Index [OF assms(1) that, of h 0 "[]"] by simp
  qed
  then show ?thesis by (simp add: indexed_def assignIndexes_list)
qed

subsection \<open>Swap\<close>

lemma Swap_list: "snd (Swap h l i j) = l[i := l ! j, j := l ! i]"
  by (simp add: Swap_def Let_def)

lemma Swap_store:
  "fst (Swap h l i j) =
     (h(l ! i := (h (l ! i))\<lparr>Index := Index (h (l ! j))\<rparr>))
       (l ! j := ((h(l ! i := (h (l ! i))\<lparr>Index := Index (h (l ! j))\<rparr>)) (l ! j))\<lparr>Index := Index (h (l ! i))\<rparr>)"
  by (simp add: Swap_def Let_def)

lemma Swap_length: "length (snd (Swap h l i j)) = length l"
  by (simp add: Swap_list)

lemma Swap_mset:
  "i < length l \<Longrightarrow> j < length l \<Longrightarrow> mset (snd (Swap h l i j)) = mset l"
  by (simp add: Swap_list mset_swap)

lemma Swap_same: "same_colours h (fst (Swap h l i j))"
  by (simp add: Swap_store same_colours_def)

lemma Swap_untouched: "a \<noteq> l ! i \<Longrightarrow> a \<noteq> l ! j \<Longrightarrow> fst (Swap h l i j) a = h a"
  by (simp add: Swap_store)

lemma Swap_indexed:
  assumes d: "distinct l" and i: "i < length l" and j: "j < length l" and x: "indexed h l"
  shows "indexed (fst (Swap h l i j)) (snd (Swap h l i j))"
proof (cases "i = j")
  case True
  have "fst (Swap h l j j) = h" by (simp add: Swap_store)
  moreover have "snd (Swap h l j j) = l" by (simp add: Swap_list)
  ultimately show ?thesis using x True by simp
next
  case False
  then have ne: "l ! i \<noteq> l ! j" using d i j by (simp add: nth_eq_iff_index_eq)
  have vi: "unat (Index (h (l ! i))) = i" and vj: "unat (Index (h (l ! j))) = j"
    using x i j by (simp_all add: indexed_def)
  show ?thesis unfolding indexed_def Swap_length
  proof (intro allI impI)
    fix k assume k: "k < length l"
    consider "k = i" | "k = j" | "k \<noteq> i" "k \<noteq> j" by blast
    then show "unat (Index (fst (Swap h l i j) (snd (Swap h l i j) ! k))) = k"
    proof cases
      case 1
      then have "snd (Swap h l i j) ! k = l ! j" using i j False by (simp add: Swap_list)
      then show ?thesis using ne vi 1 by (simp add: Swap_store)
    next
      case 2
      then have "snd (Swap h l i j) ! k = l ! i" using i j False by (simp add: Swap_list)
      then show ?thesis using ne vj 2 by (simp add: Swap_store)
    next
      case 3
      then have e: "snd (Swap h l i j) ! k = l ! k" by (simp add: Swap_list)
      have "l ! k \<noteq> l ! i" "l ! k \<noteq> l ! j" using 3 d i j k by (simp_all add: nth_eq_iff_index_eq)
      then show ?thesis using x k by (simp add: e Swap_untouched indexed_def)
    qed
  qed
qed

subsection \<open>The palette list\<close>

lemma layoutPalette_palette:
  "snd (layoutPalette w h l x y pic pal) = pal @ map (\<lambda>c. RGBA (h c)) l"
  by (induction l arbitrary: x y pic pal) (simp_all add: Let_def)

lemma layoutPalette_Rect:
  "Rect (fst (layoutPalette w h l x y pic pal)) = Rect pic"
  by (induction l arbitrary: x y pic pal) (simp_all add: Let_def SetRGBA_def)

lemma Less_before: "Less h l i j = before (h (l ! i)) (h (l ! j))"
  by (simp add: Less_def before_def Let_def)

lemma before_same:
  assumes "same_colours h h'"
  shows "before (h' a) (h' b) = before (h a) (h b)"
  by (simp add: before_def same_colours_fields [OF assms])

subsection \<open>One insertion\<close>

lemma set_insr: "set (insr lt x ys) = insert x (set ys)"
  by (induction ys) auto

lemma length_insr: "length (insr lt x ys) = Suc (length ys)"
  by (induction ys) auto

lemma mset_insr: "mset (insr lt x ys) = add_mset x (mset ys)"
  by (induction ys) auto

lemma sorted_insr:
  assumes tr: "\<And>a b c. a \<in> D \<Longrightarrow> b \<in> D \<Longrightarrow> c \<in> D \<Longrightarrow> lt a b \<Longrightarrow> lt b c \<Longrightarrow> lt a c"
    and tot: "\<And>a b. a \<in> D \<Longrightarrow> b \<in> D \<Longrightarrow> a \<noteq> b \<Longrightarrow> lt a b \<or> lt b a"
    and sub: "insert x (set ys) \<subseteq> D"
    and nin: "x \<notin> set ys"
    and s: "sorted_wrt (\<lambda>a b. lt b a) ys"
  shows "sorted_wrt (\<lambda>a b. lt b a) (insr lt x ys)"
  using sub nin s
proof (induction ys)
  case Nil
  then show ?case by simp
next
  case (Cons y ys)
  have xD: "x \<in> D" and yD: "y \<in> D" and ysD: "set ys \<subseteq> D" using Cons.prems(1) by auto
  show ?case
  proof (cases "lt x y")
    case True
    have "sorted_wrt (\<lambda>a b. lt b a) (insr lt x ys)"
      using Cons.prems by (intro Cons.IH) auto
    moreover have "\<forall>z \<in> set (insr lt x ys). lt z y"
      using True Cons.prems(3) by (auto simp: set_insr)
    ultimately show ?thesis using True by simp
  next
    case False
    have xy: "x \<noteq> y" using Cons.prems(2) by auto
    then have yx: "lt y x" using False tot [OF xD yD] by auto
    have "lt z x" if "z \<in> set ys" for z
    proof -
      have "lt z y" using that Cons.prems(3) by auto
      moreover have "z \<in> D" using that ysD by auto
      ultimately show ?thesis using yx tr [OF _ yD xD] by blast
    qed
    then show ?thesis using False yx Cons.prems(3) by auto
  qed
qed

lemma insDown_insr:
  "insDown lt (rev ys @ x # zs) (length ys) = rev (insr lt x ys) @ zs"
proof (induction ys arbitrary: zs)
  case Nil
  show ?case by simp
next
  case (Cons y ys)
  have n1: "(rev (y # ys) @ x # zs) ! Suc (length ys) = x"
    by (simp add: nth_append)
  have n0: "(rev (y # ys) @ x # zs) ! length ys = y"
    by (simp add: nth_append)
  have upd: "(rev (y # ys) @ x # zs)[Suc (length ys) := y, length ys := x] = rev ys @ x # y # zs"
    by (simp add: list_update_append)
  show ?case
  proof (cases "lt x y")
    case True
    have "insDown lt (rev (y # ys) @ x # zs) (length (y # ys))
            = insDown lt (rev ys @ x # y # zs) (length ys)"
      using True by (simp only: length_Cons insDown.simps n1 n0 upd if_True)
    also have "\<dots> = rev (insr lt x ys) @ y # zs" by (rule Cons.IH)
    finally show ?thesis using True by simp
  next
    case False
    have "insDown lt (rev (y # ys) @ x # zs) (length (y # ys)) = rev (y # ys) @ x # zs"
      using False by (simp only: length_Cons insDown.simps n1 n0 if_False)
    then show ?thesis using False by simp
  qed
qed

lemma insDown_step:
  assumes i: "i < length l"
  shows "insDown lt l i = rev (insr lt (l ! i) (rev (take i l))) @ drop (Suc i) l"
proof -
  have "l = rev (rev (take i l)) @ l ! i # drop (Suc i) l"
    using i by (simp add: id_take_nth_drop)
  then have "insDown lt l i
       = insDown lt (rev (rev (take i l)) @ l ! i # drop (Suc i) l) (length (rev (take i l)))"
    using i by simp
  then show ?thesis by (simp only: insDown_insr)
qed

subsection \<open>The insertion sort on the store\<close>

lemma insertDown_pure:
  "snd (insertDown (h, l) j) = insDown (\<lambda>a b. before (h a) (h b)) l j
   \<and> same_colours h (fst (insertDown (h, l) j))"
proof (induction j arbitrary: h l)
  case 0
  show ?case by (simp add: same_colours_refl)
next
  case (Suc j)
  show ?case
  proof (cases "Less h l (Suc j) j")
    case True
    obtain h' l' where sw: "Swap h l (Suc j) j = (h', l')" by (cases "Swap h l (Suc j) j")
    have l': "l' = l[Suc j := l ! j, j := l ! Suc j]" using Swap_list [of h l "Suc j" j] sw by simp
    have sc: "same_colours h h'" using Swap_same [of h l "Suc j" j] sw by simp
    have lt: "(\<lambda>a b. before (h' a) (h' b)) = (\<lambda>a b. before (h a) (h b))"
      by (intro ext) (rule before_same [OF sc])
    have ih: "snd (insertDown (h', l') j) = insDown (\<lambda>a b. before (h a) (h b)) l' j"
      and ih2: "same_colours h' (fst (insertDown (h', l') j))"
      using Suc.IH [of h' l'] by (simp_all add: lt)
    have e: "insertDown (h, l) (Suc j) = insertDown (h', l') j" using True sw by simp
    have "before (h (l ! Suc j)) (h (l ! j))" using True by (simp add: Less_before)
    then have "insDown (\<lambda>a b. before (h a) (h b)) l (Suc j) = insDown (\<lambda>a b. before (h a) (h b)) l' j"
      by (simp add: l')
    then show ?thesis using e ih same_colours_trans [OF sc ih2] by simp
  next
    case False
    then have "\<not> before (h (l ! Suc j)) (h (l ! j))" by (simp add: Less_before)
    then show ?thesis using False by (simp add: same_colours_refl)
  qed
qed

lemma insertDown_inv:
  assumes "distinct l" and "j < length l" and "indexed h l"
  shows "indexed (fst (insertDown (h, l) j)) (snd (insertDown (h, l) j))
         \<and> mset (snd (insertDown (h, l) j)) = mset l"
  using assms
proof (induction j arbitrary: h l)
  case 0
  then show ?case by simp
next
  case (Suc j)
  show ?case
  proof (cases "Less h l (Suc j) j")
    case True
    obtain h' l' where sw: "Swap h l (Suc j) j = (h', l')" by (cases "Swap h l (Suc j) j")
    have j: "j < length l" using Suc.prems(2) by simp
    have ms: "mset l' = mset l" using Swap_mset [OF Suc.prems(2) j, of h] sw by simp
    then have d: "distinct l'" using Suc.prems(1) mset_eq_imp_distinct_iff by blast
    have len: "length l' = length l" using ms by (rule mset_eq_length)
    have ix: "indexed h' l'" using Swap_indexed [OF Suc.prems(1) Suc.prems(2) j Suc.prems(3)] sw by simp
    have "indexed (fst (insertDown (h', l') j)) (snd (insertDown (h', l') j))
         \<and> mset (snd (insertDown (h', l') j)) = mset l'"
      using d j len ix by (intro Suc.IH) simp_all
    then show ?thesis using True sw ms by simp
  next
    case False
    then show ?thesis using Suc.prems by simp
  qed
qed

lemma insertionSort_upto:
  fixes h :: store and l :: UniqueColourList
  defines "lt \<equiv> (\<lambda>a b. before (h a) (h b))"
  assumes d: "distinct l" and ix: "indexed h l"
    and tr: "\<And>a b c. a \<in> set l \<Longrightarrow> b \<in> set l \<Longrightarrow> c \<in> set l \<Longrightarrow> lt a b \<Longrightarrow> lt b c \<Longrightarrow> lt a c"
    and tot: "\<And>a b. a \<in> set l \<Longrightarrow> b \<in> set l \<Longrightarrow> a \<noteq> b \<Longrightarrow> lt a b \<or> lt b a"
    and k: "k \<le> length l"
  shows "\<exists>hk lk. fold (\<lambda>i s. insertDown s i) [1..<k] (h, l) = (hk, lk)
           \<and> mset lk = mset l \<and> indexed hk lk \<and> same_colours h hk
           \<and> sorted_wrt lt (take k lk)"
  using k
proof (induction k)
  case 0
  show ?case using ix by (simp add: same_colours_refl)
next
  case (Suc k)
  show ?case
  proof (cases "k = 0")
    case True
    have "sorted_wrt lt (take (Suc 0) l)" by (cases l) simp_all
    then show ?thesis using True ix by (simp add: same_colours_refl)
  next
    case False
    have kl: "k < length l" using Suc.prems by simp
    then obtain hk lk where s: "fold (\<lambda>i s. insertDown s i) [1..<k] (h, l) = (hk, lk)"
      and ms: "mset lk = mset l" and ixk: "indexed hk lk"
      and sc: "same_colours h hk" and so: "sorted_wrt lt (take k lk)"
      using Suc.IH by auto
    have dk: "distinct lk" using ms d mset_eq_imp_distinct_iff by blast
    have lenk: "length lk = length l" using ms by (rule mset_eq_length)
    have setk: "set lk = set l" using ms by (rule mset_eq_setD)
    have klk: "k < length lk" using kl lenk by simp
    have up: "[1..<Suc k] = [1..<k] @ [k]" using False by simp
    have f: "fold (\<lambda>i s. insertDown s i) [1..<Suc k] (h, l) = insertDown (hk, lk) k"
      by (simp only: up fold_append o_apply s fold_simps)
    obtain h2 l2 where r: "insertDown (hk, lk) k = (h2, l2)" by (cases "insertDown (hk, lk) k")
    have ltk: "(\<lambda>a b. before (hk a) (hk b)) = lt"
      unfolding lt_def by (intro ext) (rule before_same [OF sc])
    have "l2 = insDown (\<lambda>a b. before (hk a) (hk b)) lk k" and sc2: "same_colours hk h2"
      using insertDown_pure [of hk lk k] r by simp_all
    then have p: "l2 = insDown lt lk k" by (simp only: ltk)
    have inv: "indexed h2 l2" and ms2: "mset l2 = mset lk"
      using insertDown_inv [OF dk klk ixk] r by simp_all
    have st: "insDown lt lk k = rev (insr lt (lk ! k) (rev (take k lk))) @ drop (Suc k) lk"
      using klk by (rule insDown_step)
    have "length (rev (insr lt (lk ! k) (rev (take k lk)))) = Suc k"
      using klk by (simp add: length_insr)
    then have tk: "take (Suc k) l2 = rev (insr lt (lk ! k) (rev (take k lk)))"
      unfolding p st by simp
    have nin: "lk ! k \<notin> set (rev (take k lk))"
    proof
      assume "lk ! k \<in> set (rev (take k lk))"
      then obtain i where "i < k" "lk ! i = lk ! k"
        using klk by (auto simp: in_set_conv_nth)
      then show False using dk klk by (simp add: nth_eq_iff_index_eq)
    qed
    have "lk ! k \<in> set lk" using klk by (rule nth_mem)
    moreover have "set (take k lk) \<subseteq> set lk" by (rule set_take_subset)
    ultimately have sub: "insert (lk ! k) (set (rev (take k lk))) \<subseteq> set l"
      unfolding setk by simp
    have "sorted_wrt (\<lambda>a b. lt b a) (rev (take k lk))"
      using so by (simp add: sorted_wrt_rev)
    with sub nin have "sorted_wrt (\<lambda>a b. lt b a) (insr lt (lk ! k) (rev (take k lk)))"
    proof (rule sorted_insr [where D = "set l", rotated 2])
      fix a b c
      assume "a \<in> set l" "b \<in> set l" "c \<in> set l" "lt a b" "lt b c"
      then show "lt a c" by (rule tr)
    next
      fix a b
      assume "a \<in> set l" "b \<in> set l" "a \<noteq> b"
      then show "lt a b \<or> lt b a" by (rule tot)
    qed
    then have so2: "sorted_wrt lt (take (Suc k) l2)"
      unfolding tk by (simp add: sorted_wrt_rev)
    have "mset l2 = mset l" using ms2 ms by simp
    moreover have "same_colours h h2" using sc sc2 by (rule same_colours_trans)
    moreover have "fold (\<lambda>i s. insertDown s i) [1..<Suc k] (h, l) = (h2, l2)"
      using f r by simp
    ultimately show ?thesis using inv so2 by blast
  qed
qed

lemma sort_Sort_correct:
  fixes h :: store and l :: UniqueColourList
  assumes d: "distinct l" and ix: "indexed h l"
    and tr: "\<And>a b c. a \<in> set l \<Longrightarrow> b \<in> set l \<Longrightarrow> c \<in> set l \<Longrightarrow>
               before (h a) (h b) \<Longrightarrow> before (h b) (h c) \<Longrightarrow> before (h a) (h c)"
    and tot: "\<And>a b. a \<in> set l \<Longrightarrow> b \<in> set l \<Longrightarrow> a \<noteq> b \<Longrightarrow>
               before (h a) (h b) \<or> before (h b) (h a)"
  shows "\<exists>h' l'. sort_Sort (h, l) = (h', l') \<and> mset l' = mset l \<and> indexed h' l'
           \<and> same_colours h h' \<and> sorted_wrt (\<lambda>a b. before (h a) (h b)) l'"
proof -
  obtain h' l' where s: "fold (\<lambda>i s. insertDown s i) [1..<length l] (h, l) = (h', l')"
    and ms: "mset l' = mset l" and ix': "indexed h' l'" and sc: "same_colours h h'"
    and so: "sorted_wrt (\<lambda>a b. before (h a) (h b)) (take (length l) l')"
  proof -
    have "\<exists>hk lk. fold (\<lambda>i s. insertDown s i) [1..<length l] (h, l) = (hk, lk)
           \<and> mset lk = mset l \<and> indexed hk lk \<and> same_colours h hk
           \<and> sorted_wrt (\<lambda>a b. before (h a) (h b)) (take (length l) lk)"
    proof (rule insertionSort_upto [OF d ix _ _ order_refl])
      fix a b c
      assume "a \<in> set l" "b \<in> set l" "c \<in> set l" "before (h a) (h b)" "before (h b) (h c)"
      then show "before (h a) (h c)" by (rule tr)
    next
      fix a b
      assume "a \<in> set l" "b \<in> set l" "a \<noteq> b"
      then show "before (h a) (h b) \<or> before (h b) (h a)" by (rule tot)
    qed
    then show ?thesis using that by blast
  qed
  have "length l' = length l" using ms by (rule mset_eq_length)
  then have "sorted_wrt (\<lambda>a b. before (h a) (h b)) l'" using so by simp
  moreover have "sort_Sort (h, l) = (h', l')"
    using s by (simp add: sort_Sort_def insertionSort_def Len_def)
  ultimately show ?thesis using ms ix' sc by blast
qed

subsection \<open>Hue, saturation and value in closed form\<close>

lemma math_Mod_small:
  assumes "\<bar>x\<bar> < 6"
  shows "math_Mod x 6 = x"
proof (cases "0 \<le> x")
  case True
  then have "\<lfloor>x / 6\<rfloor> = 0" using assms by (simp add: floor_eq_iff)
  then show ?thesis using True by (simp add: math_Mod_def)
next
  case False
  then have "\<lceil>x / 6\<rceil> = 0" using assms by (simp add: ceiling_eq_iff)
  then show ?thesis using False by (simp add: math_Mod_def)
qed

lemma Hsv_value: "snd (snd (Hsv r g b)) = max (max r g) b"
  by (simp add: Hsv_def Let_def)

lemma Hsv_saturation:
  "fst (snd (Hsv r g b)) =
     (if max (max r g) b \<noteq> 0 then (max (max r g) b - min (min r g) b) / max (max r g) b else 0)"
  by (simp add: Hsv_def Let_def)

lemma Hsv_hue_grey:
  assumes "min (min r g) b = max (max r g) b"
  shows "fst (Hsv r g b) = 0"
  using assms by (simp add: Hsv_def Let_def)

lemma Hsv_hue:
  assumes "min (min r g) b \<noteq> max (max r g) b"
  shows "fst (Hsv r g b) =
           (if sector r g b * 60 < 0 then sector r g b * 60 + 360 else sector r g b * 60)"
proof -
  let ?v = "max (max r g) b" and ?m = "min (min r g) b"
  have C: "0 < ?v - ?m" using assms by (simp add: min_def max_def split: if_splits)
  have "\<bar>g - b\<bar> \<le> ?v - ?m" by (simp add: min_def max_def abs_if)
  then have "\<bar>(g - b) / (?v - ?m)\<bar> \<le> 1" using C by (simp add: field_simps abs_if split: if_splits)
  then have m: "math_Mod ((g - b) / (?v - ?m)) 6 = (g - b) / (?v - ?m)"
    by (intro math_Mod_small) simp
  have vr: "?v = r" if "?v \<noteq> b" "?v \<noteq> g" using that by (simp add: max_def split: if_splits)
  show ?thesis
  proof (cases "?v = b")
    case True
    then show ?thesis using assms unfolding Hsv_def sector_def Let_def by simp
  next
    case nb: False
    show ?thesis
    proof (cases "?v = g")
      case True
      then show ?thesis using assms nb unfolding Hsv_def sector_def Let_def by simp
    next
      case False
      then show ?thesis using assms nb vr [OF nb False] m unfolding Hsv_def sector_def Let_def by simp
    qed
  qed
qed

subsection \<open>The sectors of the hue\<close>

lemma sector_blue:
  assumes "min (min r g) b \<noteq> max (max r g) b" and "max (max r g) b = b"
  shows "3 \<le> sector r g b" and "sector r g b \<le> 5"
proof -
  let ?C = "max (max r g) b - min (min r g) b"
  have C: "0 < ?C" using assms(1) by (simp add: min_def max_def split: if_splits)
  have "- ?C \<le> r - g" "r - g \<le> ?C" by (simp_all add: min_def max_def)
  then have "- 1 \<le> (r - g) / ?C" "(r - g) / ?C \<le> 1" using C by (simp_all add: field_simps)
  then show "3 \<le> sector r g b" and "sector r g b \<le> 5"
    using assms(2) by (simp_all add: sector_def Let_def)
qed

lemma sector_green:
  assumes "min (min r g) b \<noteq> max (max r g) b" and "max (max r g) b \<noteq> b"
    and "max (max r g) b = g"
  shows "1 \<le> sector r g b" and "sector r g b < 3"
proof -
  let ?C = "max (max r g) b - min (min r g) b"
  have C: "0 < ?C" using assms(1) by (simp add: min_def max_def split: if_splits)
  have "- ?C \<le> b - r" "b - r < ?C" using assms(2,3) by (simp_all add: min_def max_def split: if_splits)
  then have "- 1 \<le> (b - r) / ?C" "(b - r) / ?C < 1" using C by (simp_all add: field_simps)
  then show "1 \<le> sector r g b" and "sector r g b < 3"
    using assms(2,3) by (simp_all add: sector_def Let_def)
qed

lemma sector_red:
  assumes "min (min r g) b \<noteq> max (max r g) b" and "max (max r g) b \<noteq> b"
    and "max (max r g) b \<noteq> g"
  shows "- 1 < sector r g b" and "sector r g b < 1"
proof -
  let ?C = "max (max r g) b - min (min r g) b"
  have C: "0 < ?C" using assms(1) by (simp add: min_def max_def split: if_splits)
  have "- ?C < g - b" "g - b < ?C" using assms(2,3) by (simp_all add: min_def max_def split: if_splits)
  then have "- 1 < (g - b) / ?C" "(g - b) / ?C < 1" using C by (simp_all add: field_simps)
  then show "- 1 < sector r g b" and "sector r g b < 1"
    using assms(2,3) by (simp_all add: sector_def Let_def)
qed

lemma hue_blue:
  assumes "min (min r g) b \<noteq> max (max r g) b" and "max (max r g) b = b"
  shows "180 \<le> fst (Hsv r g b)" and "fst (Hsv r g b) \<le> 300"
    and "fst (Hsv r g b) = 60 * ((r - g) / (max (max r g) b - min (min r g) b)) + 240"
proof -
  have s: "sector r g b = (r - g) / (max (max r g) b - min (min r g) b) + 4"
    using assms(2) by (simp add: sector_def Let_def)
  have h: "fst (Hsv r g b) = sector r g b * 60"
    using sector_blue [OF assms] by (simp add: Hsv_hue [OF assms(1)])
  show "180 \<le> fst (Hsv r g b)" and "fst (Hsv r g b) \<le> 300"
    using sector_blue [OF assms] unfolding h by simp_all
  show "fst (Hsv r g b) = 60 * ((r - g) / (max (max r g) b - min (min r g) b)) + 240"
    unfolding h s by simp
qed

lemma hue_green:
  assumes "min (min r g) b \<noteq> max (max r g) b" and "max (max r g) b \<noteq> b"
    and "max (max r g) b = g"
  shows "60 \<le> fst (Hsv r g b)" and "fst (Hsv r g b) < 180"
    and "fst (Hsv r g b) = 60 * ((b - r) / (max (max r g) b - min (min r g) b)) + 120"
proof -
  have s: "sector r g b = (b - r) / (max (max r g) b - min (min r g) b) + 2"
    using assms(2,3) by (simp add: sector_def Let_def)
  have h: "fst (Hsv r g b) = sector r g b * 60"
    using sector_green [OF assms] by (simp add: Hsv_hue [OF assms(1)])
  show "60 \<le> fst (Hsv r g b)" and "fst (Hsv r g b) < 180"
    using sector_green [OF assms] unfolding h by simp_all
  show "fst (Hsv r g b) = 60 * ((b - r) / (max (max r g) b - min (min r g) b)) + 120"
    unfolding h s by simp
qed

lemma hue_red:
  assumes "min (min r g) b \<noteq> max (max r g) b" and "max (max r g) b \<noteq> b"
    and "max (max r g) b \<noteq> g"
  shows "(0 \<le> fst (Hsv r g b) \<and> fst (Hsv r g b) < 60
            \<and> fst (Hsv r g b) = 60 * ((g - b) / (max (max r g) b - min (min r g) b)))
         \<or> (300 < fst (Hsv r g b) \<and> fst (Hsv r g b) < 360
            \<and> fst (Hsv r g b) = 60 * ((g - b) / (max (max r g) b - min (min r g) b)) + 360)"
proof -
  have s: "sector r g b = (g - b) / (max (max r g) b - min (min r g) b)"
    using assms(2,3) unfolding sector_def Let_def by (simp only: if_False)
  show ?thesis
  proof (cases "sector r g b < 0")
    case True
    then have h: "fst (Hsv r g b) = sector r g b * 60 + 360"
      by (simp add: Hsv_hue [OF assms(1)])
    have "300 < fst (Hsv r g b)" "fst (Hsv r g b) < 360"
      using sector_red [OF assms] True unfolding h by simp_all
    moreover have "fst (Hsv r g b) = 60 * ((g - b) / (max (max r g) b - min (min r g) b)) + 360"
      unfolding h s by simp
    ultimately show ?thesis by blast
  next
    case False
    then have h: "fst (Hsv r g b) = sector r g b * 60"
      by (simp add: Hsv_hue [OF assms(1)])
    have "0 \<le> fst (Hsv r g b)" "fst (Hsv r g b) < 60"
      using sector_red [OF assms] False unfolding h by simp_all
    moreover have "fst (Hsv r g b) = 60 * ((g - b) / (max (max r g) b - min (min r g) b))"
      unfolding h s by simp
    ultimately show ?thesis by blast
  qed
qed

lemma scaled_quotient_cancel:
  fixes x y c k :: real
  assumes "0 < c" and "60 * (x / c) + k = 60 * (y / c) + k"
  shows "x = y"
  using assms by simp

lemma diff_min_unique:
  fixes x y :: real
  assumes "x - y = x' - y'" and "min x y = min x' y'"
  shows "x = x'" and "y = y'"
  using assms by (simp_all add: min_def split: if_splits)

lemma Hsv_inj:
  assumes nn: "0 \<le> r" "0 \<le> g" "0 \<le> b" "0 \<le> r'" "0 \<le> g'" "0 \<le> b'"
    and e: "Hsv r g b = Hsv r' g' b'"
  shows "r = r' \<and> g = g' \<and> b = b'"
proof -
  define M where "M = max (max r g) b"
  define m where "m = min (min r g) b"
  define m' where "m' = min (min r' g') b'"
  have M': "max (max r' g') b' = M"
    using e Hsv_value [of r g b] Hsv_value [of r' g' b'] by (simp add: M_def)
  have le: "r \<le> M" "g \<le> M" "b \<le> M" "m \<le> r" "m \<le> g" "m \<le> b"
    by (simp_all add: M_def m_def)
  have le': "r' \<le> M" "g' \<le> M" "b' \<le> M" "m' \<le> r'" "m' \<le> g'" "m' \<le> b'"
    unfolding M' [symmetric] m'_def by simp_all
  have s1: "fst (snd (Hsv r g b)) = (if M \<noteq> 0 then (M - m) / M else 0)"
    unfolding M_def m_def by (rule Hsv_saturation)
  have s2: "fst (snd (Hsv r' g' b')) = (if M \<noteq> 0 then (M - m') / M else 0)"
    unfolding M' [symmetric] m'_def by (rule Hsv_saturation)
  have "fst (snd (Hsv r g b)) = fst (snd (Hsv r' g' b'))" by (simp only: e)
  then have sat: "(if M \<noteq> 0 then (M - m) / M else 0) = (if M \<noteq> 0 then (M - m') / M else 0)"
    by (simp only: s1 s2)
  have hue: "fst (Hsv r g b) = fst (Hsv r' g' b')" using e by simp
  show ?thesis
  proof (cases "M = 0")
    case True
    then show ?thesis using nn le le' by simp
  next
    case M0: False
    then have mm: "m' = m" using sat by simp
    show ?thesis
    proof (cases "m = M")
      case True
      then show ?thesis using le le' mm by simp
    next
      case False
      have ne: "min (min r g) b \<noteq> max (max r g) b" using False by (simp add: M_def m_def)
      have ne': "min (min r' g') b' \<noteq> max (max r' g') b'" using False mm by (simp add: M' m'_def)
      have C: "0 < M - m" using False le by (simp add: M_def m_def min_def max_def split: if_splits)
      consider (blue) "M = b" | (green) "M \<noteq> b" "M = g" | (red) "M \<noteq> b" "M \<noteq> g" by blast
      then show ?thesis
      proof cases
        case blue
        have b1: "max (max r g) b = b" using blue by (simp add: M_def)
        note hb = hue_blue [OF ne b1, folded M_def m_def]
        consider (blue') "M = b'" | (green') "M \<noteq> b'" "M = g'" | (red') "M \<noteq> b'" "M \<noteq> g'" by blast
        then show ?thesis
        proof cases
          case blue'
          have b2: "max (max r' g') b' = b'" using blue' by (simp add: M')
          note hb' = hue_blue [OF ne' b2, unfolded M', folded m'_def, unfolded mm]
          have "60 * ((r - g) / (M - m)) + 240 = 60 * ((r' - g') / (M - m)) + 240"
            using hb(3) hb'(3) hue by (simp only:)
          with C have d: "r - g = r' - g'" by (rule scaled_quotient_cancel)
          have "min r g = m" using blue False le by (simp add: m_def min_def split: if_splits)
          moreover have "min r' g' = m" using blue' False le' mm by (simp add: m'_def min_def split: if_splits)
          ultimately have "min r g = min r' g'" by simp
          with d have "r = r'" "g = g'" by (rule diff_min_unique)+
          then show ?thesis using blue blue' by simp
        next
          case green'
          have "max (max r' g') b' \<noteq> b'" "max (max r' g') b' = g'" using green' by (simp_all add: M')
          from hue_green [OF ne' this] hb hue have False by linarith
          then show ?thesis ..
        next
          case red'
          have "max (max r' g') b' \<noteq> b'" "max (max r' g') b' \<noteq> g'" using red' by (simp_all add: M')
          from hue_red [OF ne' this] hb hue have False by (elim disjE conjE; linarith)
          then show ?thesis ..
        qed
      next
        case green
        have g1: "max (max r g) b \<noteq> b" "max (max r g) b = g" using green by (simp_all add: M_def)
        note hg = hue_green [OF ne g1, folded M_def m_def]
        consider (blue') "M = b'" | (green') "M \<noteq> b'" "M = g'" | (red') "M \<noteq> b'" "M \<noteq> g'" by blast
        then show ?thesis
        proof cases
          case blue'
          have "max (max r' g') b' = b'" using blue' by (simp add: M')
          from hue_blue [OF ne' this] hg hue have False by linarith
          then show ?thesis ..
        next
          case green'
          have g2: "max (max r' g') b' \<noteq> b'" "max (max r' g') b' = g'" using green' by (simp_all add: M')
          note hg' = hue_green [OF ne' g2, unfolded M', folded m'_def, unfolded mm]
          have "60 * ((b - r) / (M - m)) + 120 = 60 * ((b' - r') / (M - m)) + 120"
            using hg(3) hg'(3) hue by (simp only:)
          with C have d: "b - r = b' - r'" by (rule scaled_quotient_cancel)
          have "min b r = m" using green False le by (simp add: m_def min_def split: if_splits)
          moreover have "min b' r' = m" using green' False le' mm by (simp add: m'_def min_def split: if_splits)
          ultimately have "min b r = min b' r'" by simp
          with d have "b = b'" "r = r'" by (rule diff_min_unique)+
          then show ?thesis using green green' by simp
        next
          case red'
          have "max (max r' g') b' \<noteq> b'" "max (max r' g') b' \<noteq> g'" using red' by (simp_all add: M')
          from hue_red [OF ne' this] hg hue have False by (elim disjE conjE; linarith)
          then show ?thesis ..
        qed
      next
        case red
        have r1: "max (max r g) b \<noteq> b" "max (max r g) b \<noteq> g" using red by (simp_all add: M_def)
        note hr = hue_red [OF ne r1, folded M_def m_def]
        have Mr: "M = r" using red by (simp add: M_def max_def split: if_splits)
        consider (blue') "M = b'" | (green') "M \<noteq> b'" "M = g'" | (red') "M \<noteq> b'" "M \<noteq> g'" by blast
        then show ?thesis
        proof cases
          case blue'
          have "max (max r' g') b' = b'" using blue' by (simp add: M')
          from hue_blue [OF ne' this] hr hue have False by (elim disjE conjE; linarith)
          then show ?thesis ..
        next
          case green'
          have "max (max r' g') b' \<noteq> b'" "max (max r' g') b' = g'" using green' by (simp_all add: M')
          from hue_green [OF ne' this] hr hue have False by (elim disjE conjE; linarith)
          then show ?thesis ..
        next
          case red'
          have r2: "max (max r' g') b' \<noteq> b'" "max (max r' g') b' \<noteq> g'" using red' by (simp_all add: M')
          note hr' = hue_red [OF ne' r2, unfolded M', folded m'_def, unfolded mm]
          have Mr': "M = r'" using red' M' by (simp add: max_def split: if_splits)
          have "60 * ((g - b) / (M - m)) + 0 = 60 * ((g' - b') / (M - m)) + 0"
            using hr hr' hue by (elim disjE conjE; linarith)
          with C have d: "g - b = g' - b'" by (rule scaled_quotient_cancel)
          have "min g b = m" using Mr False le by (simp add: m_def min_def split: if_splits)
          moreover have "min g' b' = m" using Mr' False le' mm by (simp add: m'_def min_def split: if_splits)
          ultimately have "min g b = min g' b'" by simp
          with d have "g = g'" "b = b'" by (rule diff_min_unique)+
          then show ?thesis using Mr Mr' by simp
        qed
      qed
    qed
  qed
qed

subsection \<open>The tolerance never merges two hues or two saturations of 8-bit colours\<close>

lemma grid_gap:
  fixes n n' k k' :: int and d x y :: real
  assumes k: "0 < k" "k \<le> 255" and k': "0 < k'" "k' \<le> 255" and d: "1 \<le> d"
    and x: "x = d * of_int n / of_int k" and y: "y = d * of_int n' / of_int k'"
    and ne: "x \<noteq> y"
  shows "1 / 65025 \<le> \<bar>x - y\<bar>"
proof -
  define z where "z = n * k' - n' * k"
  have kk: "0 < real_of_int k * real_of_int k'" using k k' by simp
  have xy: "x - y = d * (of_int z / (of_int k * of_int k'))"
    using k k' unfolding x y z_def by (simp add: field_simps)
  have "z \<noteq> 0" using ne xy by auto
  then have "1 \<le> \<bar>z\<bar>" by simp
  then have "real_of_int 1 \<le> real_of_int \<bar>z\<bar>" by (simp only: of_int_le_iff)
  then have z1: "1 \<le> \<bar>real_of_int z\<bar>" by simp
  have "k * k' \<le> 255 * 255" using k k' by (intro mult_mono) simp_all
  then have "real_of_int (k * k') \<le> real_of_int (255 * 255)" by (simp only: of_int_le_iff)
  then have kk2: "real_of_int k * real_of_int k' \<le> 65025" by simp
  have "1 / 65025 \<le> 1 / (real_of_int k * real_of_int k')"
    using kk kk2 by (simp add: field_simps)
  also have "\<dots> \<le> \<bar>real_of_int z\<bar> / (real_of_int k * real_of_int k')"
    using z1 kk by (simp add: divide_right_mono)
  also have "\<dots> \<le> d * (\<bar>real_of_int z\<bar> / (real_of_int k * real_of_int k'))"
  proof -
    have w: "0 \<le> \<bar>real_of_int z\<bar> / (real_of_int k * real_of_int k')" using kk by simp
    have "1 * (\<bar>real_of_int z\<bar> / (real_of_int k * real_of_int k'))
            \<le> d * (\<bar>real_of_int z\<bar> / (real_of_int k * real_of_int k'))"
      using d w by (rule mult_right_mono)
    then show ?thesis by (simp only: mult_1)
  qed
  also have "\<dots> = \<bar>x - y\<bar>"
  proof -
    have "0 < real_of_int k" "0 < real_of_int k'" using k k' by simp_all
    then show ?thesis using d unfolding xy by (simp add: abs_mult)
  qed
  finally show ?thesis .
qed

lemma floatEquals_on_grid:
  assumes "on_grid d x" and "on_grid d y" and "1 \<le> d"
  shows "floatEquals x y \<longleftrightarrow> x = y"
proof (cases "x = y")
  case True
  then show ?thesis by (simp add: floatEquals_def EPSILON_def)
next
  case False
  obtain n k where k: "0 < k" "k \<le> 255" "x = d * of_int n / of_int k"
    using assms(1) unfolding on_grid_def by blast
  obtain n' k' where k': "0 < k'" "k' \<le> 255" "y = d * of_int n' / of_int k'"
    using assms(2) unfolding on_grid_def by blast
  have "1 / 65025 \<le> \<bar>x - y\<bar>"
    using grid_gap [OF k(1,2) k'(1,2) assms(3) k(3) k'(3) False] .
  then have "\<not> (x - y < EPSILON \<and> y - x < EPSILON)" by (simp add: EPSILON_def abs_if split: if_splits)
  then show ?thesis using False by (simp add: floatEquals_def)
qed

lemma byte_max: "max (real a / 255) (real b / 255) = real (max a b) / 255"
  by (simp add: max_def)

lemma byte_min: "min (real a / 255) (real b / 255) = real (min a b) / 255"
  by (simp add: min_def)

lemma grid_affine:
  fixes a b M m :: nat and q :: int
  assumes "m < M"
  shows "60 * ((real a / 255 - real b / 255) / (real M / 255 - real m / 255)) + 60 * of_int q
           = 60 * of_int (int a - int b + q * (int M - int m)) / of_int (int M - int m)"
proof -
  have p: "0 < real M - real m" using assms by simp
  have e: "real_of_int (int M - int m) = real M - real m" by simp
  have "(real a / 255 - real b / 255) / (real M / 255 - real m / 255)
          = (real a - real b) / (real M - real m)"
    using p by (simp add: field_simps)
  moreover have "real_of_int (int a - int b + q * (int M - int m))
          = (real a - real b) + of_int q * (real M - real m)" by simp
  ultimately show ?thesis using p unfolding e by (simp add: field_simps)
qed

lemma hue_on_grid:
  fixes i j l :: nat
  assumes "i \<le> 255" "j \<le> 255" "l \<le> 255"
  shows "on_grid 60 (fst (Hsv (real i / 255) (real j / 255) (real l / 255)))"
proof -
  define M where "M = max (max i j) l"
  define m where "m = min (min i j) l"
  let ?r = "real i / 255" and ?g = "real j / 255" and ?b = "real l / 255"
  have vM: "max (max ?r ?g) ?b = real M / 255" by (simp add: byte_max M_def)
  have vm: "min (min ?r ?g) ?b = real m / 255" by (simp add: byte_min m_def)
  have mM: "m \<le> M" by (simp add: M_def m_def)
  have M255: "M \<le> 255" using assms by (simp add: M_def)
  show ?thesis
  proof (cases "m = M")
    case True
    then have "fst (Hsv ?r ?g ?b) = 0" by (intro Hsv_hue_grey) (simp add: vM vm)
    then have "fst (Hsv ?r ?g ?b) = 60 * of_int 0 / of_int 1" by simp
    then show ?thesis unfolding on_grid_def by (intro exI [of _ 0] exI [of _ 1]) simp
  next
    case False
    then have lt: "m < M" using mM by simp
    have ne: "min (min ?r ?g) ?b \<noteq> max (max ?r ?g) ?b" using False by (simp add: vM vm)
    have k: "0 < int M - int m" "int M - int m \<le> 255" using lt M255 by simp_all
    have grid: "on_grid 60 (60 * ((real a / 255 - real b / 255) / (real M / 255 - real m / 255)) + 60 * of_int q)"
      for a b :: nat and q :: int
      unfolding on_grid_def grid_affine [OF lt] using k by blast
    consider (blue) "max (max ?r ?g) ?b = ?b"
      | (green) "max (max ?r ?g) ?b \<noteq> ?b" "max (max ?r ?g) ?b = ?g"
      | (red) "max (max ?r ?g) ?b \<noteq> ?b" "max (max ?r ?g) ?b \<noteq> ?g" by blast
    then show ?thesis
    proof cases
      case blue
      have "fst (Hsv ?r ?g ?b) = 60 * ((?r - ?g) / (real M / 255 - real m / 255)) + 60 * of_int 4"
        using hue_blue(3) [OF ne blue] by (simp add: vM vm)
      then show ?thesis using grid [of i j 4] by simp
    next
      case green
      have "fst (Hsv ?r ?g ?b) = 60 * ((?b - ?r) / (real M / 255 - real m / 255)) + 60 * of_int 2"
        using hue_green(3) [OF ne green] by (simp add: vM vm)
      then show ?thesis using grid [of l i 2] by simp
    next
      case red
      from hue_red [OF ne red]
      have "fst (Hsv ?r ?g ?b) = 60 * ((?g - ?b) / (real M / 255 - real m / 255)) + 60 * of_int 0
          \<or> fst (Hsv ?r ?g ?b) = 60 * ((?g - ?b) / (real M / 255 - real m / 255)) + 60 * of_int 6"
        by (auto simp: vM vm)
      then show ?thesis using grid [of j l 0] grid [of j l 6] by auto
    qed
  qed
qed

lemma saturation_on_grid:
  fixes i j l :: nat
  assumes "i \<le> 255" "j \<le> 255" "l \<le> 255"
  shows "on_grid 1 (fst (snd (Hsv (real i / 255) (real j / 255) (real l / 255))))"
proof -
  define M where "M = max (max i j) l"
  define m where "m = min (min i j) l"
  let ?r = "real i / 255" and ?g = "real j / 255" and ?b = "real l / 255"
  have vM: "max (max ?r ?g) ?b = real M / 255" by (simp add: byte_max M_def)
  have vm: "min (min ?r ?g) ?b = real m / 255" by (simp add: byte_min m_def)
  have mM: "m \<le> M" by (simp add: M_def m_def)
  have M255: "M \<le> 255" using assms by (simp add: M_def)
  show ?thesis
  proof (cases "M = 0")
    case True
    then have "fst (snd (Hsv ?r ?g ?b)) = 1 * of_int 0 / of_int 1"
      by (simp add: Hsv_saturation vM)
    then show ?thesis unfolding on_grid_def by (intro exI [of _ 0] exI [of _ 1]) simp
  next
    case False
    then have "fst (snd (Hsv ?r ?g ?b)) = (real M / 255 - real m / 255) / (real M / 255)"
      by (simp add: Hsv_saturation vM vm)
    also have "\<dots> = (real M - real m) / real M" using False by (simp add: field_simps)
    also have "\<dots> = 1 * of_int (int M - int m) / of_int (int M)" by simp
    finally have "fst (snd (Hsv ?r ?g ?b)) = 1 * of_int (int M - int m) / of_int (int M)" .
    moreover have "0 < int M" "int M \<le> 255" using False M255 by simp_all
    ultimately show ?thesis unfolding on_grid_def by blast
  qed
qed

subsection \<open>The order of the 8-bit colours\<close>

lemma new_fields:
  "RGBA (newUniqueColour p) = p"
  "H (newUniqueColour p) = fst (Hsv (real (unat (R p)) / 255) (real (unat (G p)) / 255) (real (unat (B p)) / 255))"
  "S (newUniqueColour p) = fst (snd (Hsv (real (unat (R p)) / 255) (real (unat (G p)) / 255) (real (unat (B p)) / 255)))"
  "V (newUniqueColour p) = snd (snd (Hsv (real (unat (R p)) / 255) (real (unat (G p)) / 255) (real (unat (B p)) / 255)))"
  "Index (newUniqueColour p) = 0"
  by (simp_all add: newUniqueColour_def split: prod.splits)

lemma unat_byte: "unat (c :: 8 word) \<le> 255"
  using unsigned_less [of c, where 'a = nat] by simp

lemma new_hue_grid: "on_grid 60 (H (newUniqueColour p))"
  unfolding new_fields by (rule hue_on_grid) (rule unat_byte)+

lemma new_saturation_grid: "on_grid 1 (S (newUniqueColour p))"
  unfolding new_fields by (rule saturation_on_grid) (rule unat_byte)+

lemma before_new:
  "before (newUniqueColour p) (newUniqueColour q) \<longleftrightarrow>
     H (newUniqueColour p) < H (newUniqueColour q)
     \<or> (H (newUniqueColour p) = H (newUniqueColour q)
        \<and> (S (newUniqueColour p) < S (newUniqueColour q)
           \<or> (S (newUniqueColour p) = S (newUniqueColour q)
              \<and> V (newUniqueColour p) < V (newUniqueColour q))))"
proof -
  have h: "floatEquals (H (newUniqueColour p)) (H (newUniqueColour q))
             \<longleftrightarrow> H (newUniqueColour p) = H (newUniqueColour q)"
    by (rule floatEquals_on_grid [OF new_hue_grid new_hue_grid]) simp
  have s: "floatEquals (S (newUniqueColour p)) (S (newUniqueColour q))
             \<longleftrightarrow> S (newUniqueColour p) = S (newUniqueColour q)"
    by (rule floatEquals_on_grid [OF new_saturation_grid new_saturation_grid]) simp
  show ?thesis unfolding before_def h s by auto
qed

lemma before_new_trans:
  assumes "before (newUniqueColour p) (newUniqueColour q)"
    and "before (newUniqueColour q) (newUniqueColour r)"
  shows "before (newUniqueColour p) (newUniqueColour r)"
  using assms unfolding before_new by linarith

lemma before_new_irrefl: "\<not> before (newUniqueColour p) (newUniqueColour p)"
  unfolding before_new by simp

lemma new_inj:
  assumes h: "H (newUniqueColour p) = H (newUniqueColour q)"
    and s: "S (newUniqueColour p) = S (newUniqueColour q)"
    and v: "V (newUniqueColour p) = V (newUniqueColour q)"
  shows "R p = R q \<and> G p = G q \<and> B p = B q"
proof -
  let ?f = "\<lambda>c :: 8 word. real (unat c) / 255"
  have "Hsv (?f (R p)) (?f (G p)) (?f (B p)) = Hsv (?f (R q)) (?f (G q)) (?f (B q))"
    using h s v unfolding new_fields by (simp add: prod_eq_iff)
  moreover have nn: "0 \<le> ?f c" for c
    by (intro divide_nonneg_nonneg of_nat_0_le_iff) simp
  ultimately have "?f (R p) = ?f (R q) \<and> ?f (G p) = ?f (G q) \<and> ?f (B p) = ?f (B q)"
    by (intro Hsv_inj nn)
  then have "real (unat (R p)) = real (unat (R q))" "real (unat (G p)) = real (unat (G q))"
    "real (unat (B p)) = real (unat (B q))" by (simp_all only: divide_cancel_right) simp_all
  then have "unat (R p) = unat (R q)" "unat (G p) = unat (G q)" "unat (B p) = unat (B q)"
    by (simp_all only: of_nat_eq_iff)
  then show ?thesis by (simp only: word_unat_eq_iff)
qed

lemma before_new_total:
  assumes "R p \<noteq> R q \<or> G p \<noteq> G q \<or> B p \<noteq> B q"
  shows "before (newUniqueColour p) (newUniqueColour q)
         \<or> before (newUniqueColour q) (newUniqueColour p)"
proof (rule ccontr)
  assume n: "\<not> (before (newUniqueColour p) (newUniqueColour q)
         \<or> before (newUniqueColour q) (newUniqueColour p))"
  then have "H (newUniqueColour p) = H (newUniqueColour q)"
    and "S (newUniqueColour p) = S (newUniqueColour q)"
    and "V (newUniqueColour p) = V (newUniqueColour q)"
    unfolding before_new by linarith+
  then have "R p = R q \<and> G p = G q \<and> B p = B q" by (rule new_inj)
  with assms show False by blast
qed

subsection \<open>A sorted list without repetition is determined by its elements\<close>

lemma sorted_wrt_unique:
  assumes irr: "\<And>a. a \<in> D \<Longrightarrow> \<not> lt a a"
    and tr: "\<And>a b c. a \<in> D \<Longrightarrow> b \<in> D \<Longrightarrow> c \<in> D \<Longrightarrow> lt a b \<Longrightarrow> lt b c \<Longrightarrow> lt a c"
    and sub: "set xs \<subseteq> D"
    and sx: "sorted_wrt lt xs" and sy: "sorted_wrt lt ys" and e: "set xs = set ys"
  shows "xs = ys"
  using sub sx sy e
proof (induction xs arbitrary: ys)
  case Nil
  then show ?case by simp
next
  case (Cons x xs)
  then obtain y ys' where ys: "ys = y # ys'" by (cases ys) auto
  have xD: "x \<in> D" and xsD: "set xs \<subseteq> D" using Cons.prems(1) by auto
  have yD: "y \<in> D" using Cons.prems(1,4) ys by auto
  have xy: "x = y"
  proof (rule ccontr)
    assume ne: "x \<noteq> y"
    have "x \<in> set ys'" using Cons.prems(4) ys ne by auto
    then have yx: "lt y x" using Cons.prems(3) ys by auto
    have "y \<in> set xs" using Cons.prems(4) ys ne by auto
    then have "lt x y" using Cons.prems(2) by auto
    then have "lt x x" using yx tr [OF xD yD xD] by blast
    then show False using irr [OF xD] by blast
  qed
  have nx: "x \<notin> set xs"
  proof
    assume "x \<in> set xs"
    then have "lt x x" using Cons.prems(2) by auto
    then show False using irr [OF xD] by blast
  qed
  have ny: "y \<notin> set ys'"
  proof
    assume "y \<in> set ys'"
    then have "lt y y" using Cons.prems(3) ys by auto
    then show False using irr [OF yD] by blast
  qed
  have "set xs = set ys'" using Cons.prems(4) ys xy nx ny by auto
  moreover have "sorted_wrt lt xs" "sorted_wrt lt ys'" using Cons.prems(2,3) ys by simp_all
  ultimately have "xs = ys'" using xsD by (intro Cons.IH) 
  then show ?case using xy ys by simp
qed

subsection \<open>The catalogue\<close>

lemma palette_alpha: "A (colourTo8BitPaletteRGBA c) = 255"
  by (simp add: colourTo8BitPaletteRGBA_def Let_def)

lemma pixelColours_alpha: "p \<in> set (pixelColours img) \<Longrightarrow> A p = 255"
  by (auto simp: pixelColours_def palette_alpha)

lemma RGBA_differ:
  fixes p q :: RGBA
  assumes "p \<noteq> q" and "A p = A q"
  shows "R p \<noteq> R q \<or> G p \<noteq> G q \<or> B p \<noteq> B q"
proof (rule ccontr)
  assume "\<not> (R p \<noteq> R q \<or> G p \<noteq> G q \<or> B p \<noteq> B q)"
  then have "R p = R q" "G p = G q" "B p = B q" by simp_all
  then have "p = q" using assms(2) by (intro RGBA.equality) simp_all
  with assms(1) show False by simp
qed

lemma wf_map_nth:
  assumes "wf_map h m" and "a < length m"
  shows "m ! a = (fst (m ! a), a)" and "h a = newUniqueColour (fst (m ! a))"
    and "map_of m (fst (m ! a)) = Some a"
proof -
  have "snd (m ! a) = map snd m ! a" using assms(2) by simp
  also have "\<dots> = a" using assms by (simp add: wf_map_def)
  finally show e: "m ! a = (fst (m ! a), a)" by (simp add: prod_eq_iff)
  have "m ! a \<in> set m" using assms(2) by simp
  then have i: "(fst (m ! a), a) \<in> set m" using e by simp
  then show "h a = newUniqueColour (fst (m ! a))" using assms(1) by (auto simp: wf_map_def)
  have "distinct (map fst m)" using assms(1) by (simp add: wf_map_def)
  then show "map_of m (fst (m ! a)) = Some a" using i by (rule map_of_is_SomeI)
qed

lemma wf_map_keys_inj:
  assumes w: "wf_map h m" and a: "a < length m" and b: "b < length m" and ne: "a \<noteq> b"
  shows "fst (m ! a) \<noteq> fst (m ! b)"
proof -
  have "distinct (map fst m)" using w by (simp add: wf_map_def)
  then have "(map fst m ! a = map fst m ! b) = (a = b)"
    by (rule nth_eq_iff_index_eq) (simp_all add: a b)
  then show ?thesis using a b ne by simp
qed

lemma catalogue_correct:
  assumes b: "buildColourMap img = (h0, m)" and n: "length m \<le> 65536" and en: "enumerates e"
  shows "\<exists>h l. catalogue e img = (h, l) \<and> mset l = mset [0..<length m] \<and> indexed h l
           \<and> same_colours h0 h \<and> sorted_wrt (\<lambda>a b. before (h0 a) (h0 b)) l"
proof -
  have w: "wf_map h0 m" using b by (rule buildColourMap_wf)
  have keys: "set (map fst m) = set (pixelColours img)" using b by (rule buildColourMap_wf)
  have sm: "map snd m = [0..<length m]" using w by (simp add: wf_map_def)
  define cs where "cs = rangeOrder e (map snd m)"
  have mcs: "mset cs = mset [0..<length m]" using en by (simp add: cs_def enumerates_def sm)
  have dcs: "distinct cs" using mcs mset_eq_imp_distinct_iff distinct_upt by blast
  have scs: "set cs = {0..<length m}" using mset_eq_setD [OF mcs] by simp
  have lcs: "length cs \<le> 65536" using mset_eq_length [OF mcs] n by simp
  define h1 where "h1 = fst (assignIndexes cs h0 0 [])"
  have a1: "assignIndexes cs h0 0 [] = (h1, cs)"
    using assignIndexes_list [of cs h0 0 "[]"] by (simp add: h1_def prod_eq_iff)
  have ix1: "indexed h1 cs" using assignIndexes_indexed [OF dcs lcs, of h0] a1 by simp
  have sc1: "same_colours h0 h1" unfolding h1_def by (rule assignIndexes_same)
  have bf: "before (h1 x) (h1 y) = before (newUniqueColour (fst (m ! x))) (newUniqueColour (fst (m ! y)))"
    if "x \<in> set cs" "y \<in> set cs" for x y
  proof -
    have "x < length m" "y < length m" using that scs by simp_all
    then have "h0 x = newUniqueColour (fst (m ! x))" "h0 y = newUniqueColour (fst (m ! y))"
      using wf_map_nth(2) [OF w] by simp_all
    then show ?thesis using before_same [OF sc1, of x y] by simp
  qed
  have "\<exists>h' l'. sort_Sort (h1, cs) = (h', l') \<and> mset l' = mset cs \<and> indexed h' l'
           \<and> same_colours h1 h' \<and> sorted_wrt (\<lambda>a b. before (h1 a) (h1 b)) l'"
  proof (rule sort_Sort_correct [OF dcs ix1])
    fix x y z
    assume m: "x \<in> set cs" "y \<in> set cs" "z \<in> set cs"
      and xy: "before (h1 x) (h1 y)" and yz: "before (h1 y) (h1 z)"
    from xy yz show "before (h1 x) (h1 z)"
      unfolding bf [OF m(1,2)] bf [OF m(2,3)] bf [OF m(1,3)] by (rule before_new_trans)
  next
    fix x y
    assume m: "x \<in> set cs" "y \<in> set cs" and ne: "x \<noteq> y"
    have lt: "x < length m" "y < length m" using m scs by simp_all
    have kne: "fst (m ! x) \<noteq> fst (m ! y)" using w lt ne by (rule wf_map_keys_inj)
    have "fst (m ! x) \<in> set (map fst m)" "fst (m ! y) \<in> set (map fst m)" using lt by simp_all
    then have "A (fst (m ! x)) = 255" "A (fst (m ! y)) = 255"
      unfolding keys by (simp_all add: pixelColours_alpha)
    then have "A (fst (m ! x)) = A (fst (m ! y))" by simp
    with kne have "R (fst (m ! x)) \<noteq> R (fst (m ! y)) \<or> G (fst (m ! x)) \<noteq> G (fst (m ! y))
        \<or> B (fst (m ! x)) \<noteq> B (fst (m ! y))" by (rule RGBA_differ)
    then show "before (h1 x) (h1 y) \<or> before (h1 y) (h1 x)"
      unfolding bf [OF m] bf [OF m(2,1)] by (rule before_new_total)
  qed
  then obtain h l where s: "sort_Sort (h1, cs) = (h, l)" and ml: "mset l = mset cs"
    and ix: "indexed h l" and sc: "same_colours h1 h"
    and so: "sorted_wrt (\<lambda>a b. before (h1 a) (h1 b)) l" by blast
  have "(\<lambda>a b. before (h1 a) (h1 b)) = (\<lambda>a b. before (h0 a) (h0 b))"
    by (intro ext) (rule before_same [OF sc1])
  then have so0: "sorted_wrt (\<lambda>a b. before (h0 a) (h0 b)) l" using so by simp
  have "catalogue e img = (h, l)"
    unfolding catalogue_def b using a1 s by (simp add: cs_def)
  moreover have "mset l = mset [0..<length m]" using ml mcs by simp
  moreover have "same_colours h0 h" using sc1 sc by (rule same_colours_trans)
  ultimately show ?thesis using ix so0 by blast
qed

subsection \<open>The index image\<close>

lemma narrow_widen: "narrow (widen c) = c"
  unfolding narrow_def widen_def Let_def
  by (rule bit_word_eqI) (auto simp: bit_simps dest: bit_imp_le_length)

lemma widen_255: "widen 255 = 0xffff"
  by (simp add: widen_def Let_def)

lemma nrgbaModel_opaque:
  "nrgbaModel (RGBAColor \<lparr>R = r, G = g, B = b, A = 255\<rparr>) = NRGBA r g b 255"
  by (simp add: widen_255 narrow_widen)

lemma high_byte_zero: "(ucast (drop_bit 16 (i :: 16 word)) :: 8 word) = 0"
  by (rule bit_word_eqI) (auto simp: bit_simps dest: bit_imp_le_length)

lemma low_byte: "(ucast ((i :: 16 word) AND 0x0000FFFF) :: 8 word) = ucast i"
proof -
  have "(0x0000FFFF :: 16 word) = - 1" by simp
  then show ?thesis by (simp only: word_bw_comms word_and_max and.right_neutral bit.conj_one_right)
qed

lemma encode_pixel_value:
  "encode_pixel img m h xy pic =
     (case map_of m (colourTo8BitPaletteRGBA (At img (fst xy) (snd xy))) of
        Some col \<Rightarrow>
          (if In xy (Rect pic)
           then pic\<lparr>Pix := (Pix pic)(xy := NRGBA (ucast (Index (h col))) 0 0 255)\<rparr> else pic)
      | None \<Rightarrow> pic)"
  by (simp add: encode_pixel_def Let_def NRGBA_Set_def palette_alpha high_byte_zero low_byte
      nrgbaModel_opaque [where b = 0 and g = 0, simplified] split: option.splits)

lemma encode_pixel_Rect: "Rect (encode_pixel img m h xy pic) = Rect pic"
  by (simp add: encode_pixel_value split: option.splits)

lemma fold_encode_Rect: "Rect (fold (encode_pixel img m h) ps pic) = Rect pic"
  by (induction ps arbitrary: pic) (simp_all add: encode_pixel_Rect)

lemma fold_encode_other:
  "xy \<notin> set ps \<Longrightarrow> Pix (fold (encode_pixel img m h) ps pic) xy = Pix pic xy"
  by (induction ps arbitrary: pic) (auto simp: encode_pixel_value split: option.splits)

lemma fold_encode_pixel:
  assumes "xy \<in> set ps" and "In xy (Rect pic)"
    and "map_of m (colourTo8BitPaletteRGBA (At img (fst xy) (snd xy))) = Some col"
  shows "Pix (fold (encode_pixel img m h) ps pic) xy = NRGBA (ucast (Index (h col))) 0 0 255"
  using assms(1,2)
proof (induction ps arbitrary: pic)
  case Nil
  then show ?case by simp
next
  case (Cons q ps)
  let ?pic = "encode_pixel img m h q pic"
  have r: "In xy (Rect ?pic)" using Cons.prems(2) by (simp add: encode_pixel_Rect)
  show ?case
  proof (cases "xy \<in> set ps")
    case True
    then show ?thesis using Cons.IH [OF True r] by simp
  next
    case False
    then have q: "q = xy" using Cons.prems(1) by simp
    have "Pix ?pic xy = NRGBA (ucast (Index (h col))) 0 0 255"
      unfolding q using assms(3) Cons.prems(2) by (simp add: encode_pixel_value)
    then show ?thesis using fold_encode_other [OF False, of img m h ?pic] by simp
  qed
qed

lemma scan_In:
  assumes "xy \<in> set (scan b)"
  shows "In xy (image_Rect (MinX b) (MinY b) (MaxX b) (MaxY b))"
  using assms by (auto simp: scan_def In_def image_Rect_def)

lemma encodeImage_pixel:
  assumes "xy \<in> set (scan (Bounds img))"
    and "map_of m (colourTo8BitPaletteRGBA (At img (fst xy) (snd xy))) = Some col"
  shows "Pix (encodeImage img m h) xy = NRGBA (ucast (Index (h col))) 0 0 255"
  unfolding encodeImage_def Let_def
  by (rule fold_encode_pixel [OF assms(1) _ assms(2)]) (simp add: NewNRGBA_def scan_In [OF assms(1)])

subsection \<open>What GenerateFromImage returns\<close>

lemma Generate_too_many:
  assumes "buildColourMap img = (h0, m)" and "65536 < length m"
  shows "GenerateFromImage e img a p
           = \<lparr>ret = Inl TooManyColours, spriteFile = Untouched, paletteFile = Untouched\<rparr>"
  using assms by (simp add: GenerateFromImage_def)

lemma Generate_ret:
  assumes "buildColourMap img = (h0, m)" and "length m \<le> 65536"
    and "catalogue e img = (h, l)"
  shows "ret (GenerateFromImage e img a p) =
          (if \<not> openSprite e \<or> \<not> encodeSprite e then Inl WriteFailed
           else if p = [] then Inr []
           else if \<not> openPalette e \<or> \<not> encodePalette e then Inl WriteFailed
           else Inr (map (\<lambda>c. RGBA (h c)) l))"
proof -
  obtain w ht where d: "getPaletteImageDimensions (word_of_nat (length l)) = (w, ht)"
    by (cases "getPaletteImageDimensions (word_of_nat (length l))")
  obtain pic pal where lp: "layoutPalette w h l 0 0 (NewRGBA (image_Rect 0 0 (sint w) (sint ht))) [] = (pic, pal)"
    by (cases "layoutPalette w h l 0 0 (NewRGBA (image_Rect 0 0 (sint w) (sint ht))) []")
  have "pal = map (\<lambda>c. RGBA (h c)) l"
    using layoutPalette_palette [of w h l 0 0 "NewRGBA (image_Rect 0 0 (sint w) (sint ht))" "[]"] lp
    by simp
  then show ?thesis using assms d lp by (simp add: GenerateFromImage_def Let_def)
qed

lemma Generate_sprite:
  assumes "buildColourMap img = (h0, m)" and "length m \<le> 65536"
    and "catalogue e img = (h, l)" and "spriteFile (GenerateFromImage e img a p) = Written pic"
  shows "pic = encodeImage img m h"
proof -
  obtain w ht where d: "getPaletteImageDimensions (word_of_nat (length l)) = (w, ht)"
    by (cases "getPaletteImageDimensions (word_of_nat (length l))")
  obtain pc pal where lp: "layoutPalette w h l 0 0 (NewRGBA (image_Rect 0 0 (sint w) (sint ht))) [] = (pc, pal)"
    by (cases "layoutPalette w h l 0 0 (NewRGBA (image_Rect 0 0 (sint w) (sint ht))) []")
  show ?thesis using assms d lp
    by (simp add: GenerateFromImage_def Let_def split: if_splits)
qed

subsection \<open>The palette\<close>

lemma palette_facts:
  assumes b: "buildColourMap img = (h0, m)" and n: "length m \<le> 65536" and en: "enumerates e"
    and c: "catalogue e img = (h, l)"
  shows "indexed h l" and "mset l = mset [0..<length m]"
    and "map (\<lambda>c. RGBA (h c)) l = map (\<lambda>a. fst (m ! a)) l"
    and "sorted_wrt (\<lambda>x y. before (newUniqueColour x) (newUniqueColour y)) (map (\<lambda>c. RGBA (h c)) l)"
    and "set (map (\<lambda>c. RGBA (h c)) l) = set (pixelColours img)"
    and "length l = card (set (pixelColours img))"
proof -
  have w: "wf_map h0 m" using b by (rule buildColourMap_wf)
  have keys: "set (map fst m) = set (pixelColours img)" using b by (rule buildColourMap_wf)
  have len: "length m = card (set (pixelColours img))" using b by (rule buildColourMap_wf)
  obtain h' l' where c': "catalogue e img = (h', l')" and ml': "mset l' = mset [0..<length m]"
    and ix': "indexed h' l'" and sc': "same_colours h0 h'"
    and so': "sorted_wrt (\<lambda>a b. before (h0 a) (h0 b)) l'"
    using catalogue_correct [OF b n en] by blast
  have hl: "h' = h" "l' = l" using c c' by simp_all
  show ix: "indexed h l" using ix' hl by simp
  show ml: "mset l = mset [0..<length m]" using ml' hl by simp
  have sl: "set l = {0..<length m}" using mset_eq_setD [OF ml] by simp
  have cell: "RGBA (h a) = fst (m ! a)" "h0 a = newUniqueColour (fst (m ! a))" if "a \<in> set l" for a
  proof -
    have a: "a < length m" using that sl by simp
    show "h0 a = newUniqueColour (fst (m ! a))" using w a by (rule wf_map_nth)
    then show "RGBA (h a) = fst (m ! a)"
      using same_colours_fields(1) [OF sc', of a] hl by (simp add: new_fields)
  qed
  show pm: "map (\<lambda>c. RGBA (h c)) l = map (\<lambda>a. fst (m ! a)) l"
    by (rule map_cong) (simp_all add: cell)
  have "sorted_wrt (\<lambda>a b. before (h0 a) (h0 b)) l" using so' hl(2) by simp
  then have "sorted_wrt (\<lambda>a b. before (newUniqueColour (fst (m ! a))) (newUniqueColour (fst (m ! b)))) l"
    by (rule sorted_wrt_mono_rel [rotated]) (simp add: cell(2))
  then show "sorted_wrt (\<lambda>x y. before (newUniqueColour x) (newUniqueColour y)) (map (\<lambda>c. RGBA (h c)) l)"
    unfolding pm by (simp add: sorted_wrt_map)
  have "set (map (\<lambda>a. fst (m ! a)) l) = (\<lambda>a. fst (m ! a)) ` {0..<length m}" using sl by simp
  also have "\<dots> = set (map fst m)"
  proof -
    have "map (\<lambda>a. fst (m ! a)) [0..<length m] = map fst m"
      by (rule nth_equalityI) simp_all
    then have "set (map (\<lambda>a. fst (m ! a)) [0..<length m]) = set (map fst m)" by simp
    then show ?thesis by simp
  qed
  finally show "set (map (\<lambda>c. RGBA (h c)) l) = set (pixelColours img)" unfolding pm keys .
  show "length l = card (set (pixelColours img))" using mset_eq_length [OF ml] len by simp
qed

lemma Generate_sprite_written:
  assumes "buildColourMap img = (h0, m)" and "length m \<le> 65536"
    and "catalogue e img = (h, l)" and "openSprite e" and "encodeSprite e"
  shows "spriteFile (GenerateFromImage e img a p) = Written (encodeImage img m h)"
proof -
  obtain w ht where d: "getPaletteImageDimensions (word_of_nat (length l)) = (w, ht)"
    by (cases "getPaletteImageDimensions (word_of_nat (length l))")
  obtain pc pal where lp: "layoutPalette w h l 0 0 (NewRGBA (image_Rect 0 0 (sint w) (sint ht))) [] = (pc, pal)"
    by (cases "layoutPalette w h l 0 0 (NewRGBA (image_Rect 0 0 (sint w) (sint ht))) []")
  show ?thesis using assms d lp by (simp add: GenerateFromImage_def Let_def)
qed

lemma pixel_in_map:
  assumes b: "buildColourMap img = (h0, m)" and xy: "xy \<in> set (scan (Bounds img))"
  shows "\<exists>col. map_of m (colourTo8BitPaletteRGBA (At img (fst xy) (snd xy))) = Some col
               \<and> col < length m"
proof -
  let ?p = "colourTo8BitPaletteRGBA (At img (fst xy) (snd xy))"
  have w: "wf_map h0 m" using b by (rule buildColourMap_wf)
  have "?p \<in> set (pixelColours img)" using xy by (auto simp: pixelColours_def)
  then have "?p \<in> set (map fst m)" using buildColourMap_wf(2) [OF b] by simp
  then obtain col where "map_of m ?p = Some col"
    by (metis map_of_eq_None_iff not_Some_eq set_map)
  moreover from this have "(?p, col) \<in> set m" by (rule map_of_SomeD)
  then have "col < length m" using w by (rule wf_map_addr [rotated])
  ultimately show ?thesis by blast
qed

lemma scan_single:
  "scan \<lparr>MinX = 0, MinY = 0, MaxX = 1, MaxY = 1\<rparr> = [(0, 0)]"
  by (simp add: scan_def upto.simps)

lemma ret_not_capacity:
  assumes "buildColourMap img = (h0, m)" and "length m \<le> 65536"
  shows "ret (GenerateFromImage e img a p) \<noteq> Inl TooManyColours"
proof -
  obtain h l where c: "catalogue e img = (h, l)" by (cases "catalogue e img")
  show ?thesis unfolding Generate_ret [OF assms c] by simp
qed

text \<open>
  C4.  The capacity error is returned exactly when the image has more than 65536 distinct
  canonical colours, and then nothing has been written.
\<close>

theorem C4_capacity:
  "(ret (GenerateFromImage e img a p) = Inl TooManyColours
      \<longleftrightarrow> 65536 < card (set (pixelColours img)))
   \<and> (65536 < card (set (pixelColours img)) \<longrightarrow>
        GenerateFromImage e img a p
          = \<lparr>ret = Inl TooManyColours, spriteFile = Untouched, paletteFile = Untouched\<rparr>)"
proof -
  obtain h0 m where b: "buildColourMap img = (h0, m)" by (cases "buildColourMap img")
  have len: "length m = card (set (pixelColours img))" using b by (rule buildColourMap_wf)
  show ?thesis
  proof (cases "65536 < length m")
    case True
    then show ?thesis using Generate_too_many [OF b True, of e a p] len by simp
  next
    case False
    then have "length m \<le> 65536" by simp
    from ret_not_capacity [OF b this, of e a p] False len show ?thesis by simp
  qed
qed

text \<open>C4 at an image of one pixel: one colour, no capacity error.\<close>

theorem C4_capacity_witness:
  "\<not> 65536 < card (set (pixelColours redPixel))
   \<and> ret (GenerateFromImage allWell redPixel ''sprite.png'' ''palette.png'') \<noteq> Inl TooManyColours"
proof -
  have "card (set (pixelColours redPixel)) = 1"
    by (simp add: pixelColours_def redPixel_def scan_single)
  then show ?thesis
    using C4_capacity [of allWell redPixel "''sprite.png''" "''palette.png''"] by simp
qed

text \<open>
  C1 fails on the code.  Without a path for the palette texture the loop that fills the
  returned palette is skipped: whenever the index image can be written, the returned palette
  is empty, whatever the number of colours.
\<close>

theorem C1_no_path_no_palette:
  assumes "card (set (pixelColours img)) \<le> 65536" and "openSprite e" and "encodeSprite e"
  shows "ret (GenerateFromImage e img outImagePath []) = Inr []"
proof -
  obtain h0 m where b: "buildColourMap img = (h0, m)" by (cases "buildColourMap img")
  obtain h l where c: "catalogue e img = (h, l)" by (cases "catalogue e img")
  have "length m \<le> 65536" using buildColourMap_wf(3) [OF b] assms(1) by simp
  from Generate_ret [OF b this c] assms(2,3) show ?thesis by simp
qed

text \<open>The failing input of C1: one opaque red pixel, one colour, an empty palette.\<close>

theorem C1_no_path_no_palette_witness:
  "card (set (pixelColours redPixel)) = 1 \<and> openSprite allWell \<and> encodeSprite allWell
   \<and> ret (GenerateFromImage allWell redPixel ''sprite.png'' []) = Inr []"
proof -
  have c: "card (set (pixelColours redPixel)) = 1"
    by (simp add: pixelColours_def redPixel_def scan_single)
  have f: "openSprite allWell" "encodeSprite allWell" by (simp_all add: allWell_def)
  have "card (set (pixelColours redPixel)) \<le> 65536" using c by simp
  from C1_no_path_no_palette [OF this f, of "''sprite.png''"] c f show ?thesis by simp
qed

text \<open>
  C3 fails on the code.  The alpha written to the index image is taken from the palette
  variant of the normalizer, which has forced it to 255: a half-transparent red pixel, whose
  canonical alpha is 128, becomes a pixel of alpha 255.
\<close>

theorem C3_alpha_lost:
  "A (colourTo8BitRGBA (At halfRed 0 0)) = 128
   \<and> (\<exists>pic. spriteFile (GenerateFromImage allWell halfRed ''sprite.png'' ''palette.png'') = Written pic
          \<and> NA (Pix pic (0, 0)) = 255)"
proof -
  have a: "A (colourTo8BitRGBA (At halfRed 0 0)) = 128"
    by (simp add: halfRed_def colourTo8BitRGBA_def widen_def scale8_def)
  obtain h0 m where b: "buildColourMap halfRed = (h0, m)" by (cases "buildColourMap halfRed")
  obtain h l where c: "catalogue allWell halfRed = (h, l)" by (cases "catalogue allWell halfRed")
  have s: "scan (Bounds halfRed) = [(0, 0)]" by (simp add: halfRed_def scan_single)
  have "length m = card (set (pixelColours halfRed))" using b by (rule buildColourMap_wf)
  then have n: "length m \<le> 65536" by (simp add: pixelColours_def s)
  have xy: "(0, 0) \<in> set (scan (Bounds halfRed))" by (simp add: s)
  obtain col where "map_of m (colourTo8BitPaletteRGBA (At halfRed (fst (0 :: int, 0 :: int)) (snd (0 :: int, 0 :: int)))) = Some col"
    using pixel_in_map [OF b xy] by blast
  from encodeImage_pixel [OF xy this, of h]
  have "NA (Pix (encodeImage halfRed m h) (0, 0)) = 255" by simp
  moreover have "spriteFile (GenerateFromImage allWell halfRed ''sprite.png'' ''palette.png'')
      = Written (encodeImage halfRed m h)"
    by (rule Generate_sprite_written [OF b n c]) (simp_all add: allWell_def)
  ultimately show ?thesis using a by blast
qed

end
